theory Spec2Isabelle
  imports Complex_Main "HOL-Library.Word"
begin

section \<open>Data model\<close>

text \<open>
  JavaScript numbers are modelled as \<^typ>\<open>real\<close> (the arithmetic of the colour matcher and
  of the compositor), array lengths, indices and image dimensions as \<^typ>\<open>nat\<close>, and the
  elements of \<open>Uint8Array\<close> and \<open>Uint8ClampedArray\<close> as 8-bit words. The percentage of
  the colour report is computed as the code computes it, in binary64: every operation is
  followed by the rounding \<open>fl\<close> defined with the report.
\<close>

type_synonym byte = "8 word"

text \<open>A colour \<open>{ r, g, b }\<close>; the fields are called \<open>red\<close>, \<open>green\<close>, \<open>blue\<close> here.\<close>

record color =
  red :: nat
  green :: nat
  blue :: nat

definition valid_color :: "color \<Rightarrow> bool" where
  "valid_color c = (red c \<le> 255 \<and> green c \<le> 255 \<and> blue c \<le> 255)"

section \<open>Colour matcher (colorUtils.js)\<close>

definition rgbDistance :: "real \<Rightarrow> real \<Rightarrow> real \<Rightarrow> real \<Rightarrow> real \<Rightarrow> real \<Rightarrow> real" where
  "rgbDistance r1 g1 b1 r2 g2 b2 = sqrt ((r1 - r2)\<^sup>2 + (g1 - g2)\<^sup>2 + (b1 - b2)\<^sup>2)"

definition MAX_RGB_DISTANCE :: real where
  "MAX_RGB_DISTANCE = sqrt (3 * 255 * 255)"

definition toleranceToDistance :: "real \<Rightarrow> real" where
  "toleranceToDistance tolerancePercent =
     (if tolerancePercent \<le> 0 then 0 else (tolerancePercent / 100) * MAX_RGB_DISTANCE)"

definition colorMatches :: "real \<Rightarrow> real \<Rightarrow> real \<Rightarrow> real \<Rightarrow> real \<Rightarrow> real \<Rightarrow> real \<Rightarrow> bool" where
  "colorMatches pr pg pb tr tg tb tolerancePercent =
     (let threshold = toleranceToDistance tolerancePercent
      in rgbDistance pr pg pb tr tg tb \<le> threshold)"

section \<open>Rasters and typed arrays\<close>

text \<open>
  An \<open>ImageData\<close>: width, height and the row-major RGBA bytes. The browser only builds
  \<open>ImageData\<close> objects with positive dimensions and a buffer of \<open>4 * width * height\<close>
  bytes (its constructor rejects anything else), which \<open>valid_raster\<close> records; the
  constructors below are modelled on such arguments.
\<close>

record raster =
  width :: nat
  height :: nat
  data :: "byte list"

definition valid_raster :: "raster \<Rightarrow> bool" where
  "valid_raster img = (0 < width img \<and> 0 < height img
     \<and> length (data img) = width img * height img * 4)"

text \<open>\<open>new ImageData(w, h)\<close>: a zero-filled raster.\<close>

definition new_ImageData :: "nat \<Rightarrow> nat \<Rightarrow> raster" where
  "new_ImageData w h = \<lparr>width = w, height = h, data = replicate (w * h * 4) 0\<rparr>"

text \<open>
  Reading a typed array: a number, or \<open>undefined\<close> (\<open>None\<close>) outside the array. In
  arithmetic and in comparisons \<open>undefined\<close> behaves as NaN, for which \<open>None\<close> stands too.
\<close>

definition rd :: "byte list \<Rightarrow> nat \<Rightarrow> real option" where
  "rd a i = (if i < length a then Some (real (unat (a ! i))) else None)"

text \<open>The number read at a place where the guards of the code have made the read defined.\<close>

definition num :: "real option \<Rightarrow> real" where
  "num v = (case v of None \<Rightarrow> 0 | Some x \<Rightarrow> x)"

text \<open>\<open>v > 0\<close> and \<open>v < 128\<close> on a value that was read: false on \<open>undefined\<close>.\<close>

definition gt0 :: "real option \<Rightarrow> bool" where
  "gt0 v = (case v of None \<Rightarrow> False | Some x \<Rightarrow> 0 < x)"

definition lt128 :: "real option \<Rightarrow> bool" where
  "lt128 v = (case v of None \<Rightarrow> False | Some x \<Rightarrow> x < 128)"

text \<open>
  Storing a number into a \<open>Uint8ClampedArray\<close> (clamp to 0..255, round to nearest, ties
  to even, NaN to 0) and into a \<open>Uint8Array\<close> (truncate, then modulo 256, NaN to 0). A
  store outside the array is ignored, as \<open>list_update\<close> does.
\<close>

definition ToUint8Clamp :: "real option \<Rightarrow> byte" where
  "ToUint8Clamp v =
     (case v of
        None \<Rightarrow> 0
      | Some x \<Rightarrow>
          if x \<le> 0 then 0
          else if 255 \<le> x then 255
          else (let f = \<lfloor>x\<rfloor> in
                if of_int f + 1 / 2 < x then of_int (f + 1)
                else if x < of_int f + 1 / 2 then of_int f
                else if even f then of_int f else of_int (f + 1)))"

definition ToUint8 :: "real option \<Rightarrow> byte" where
  "ToUint8 v = (case v of None \<Rightarrow> 0 | Some x \<Rightarrow> of_int (if 0 \<le> x then \<lfloor>x\<rfloor> else \<lceil>x\<rceil>))"

definition Math_round :: "real \<Rightarrow> real" where
  "Math_round x = of_int \<lfloor>x + 1 / 2\<rfloor>"

text \<open>
  The four assignments \<open>out[j] = src[i]; \<dots>; out[j + 3] = src[i + 3]\<close> that copy one
  pixel between two \<open>Uint8ClampedArray\<close>s.
\<close>

definition copy_px :: "byte list \<Rightarrow> nat \<Rightarrow> byte list \<Rightarrow> nat \<Rightarrow> byte list" where
  "copy_px src i out j =
     out[j := ToUint8Clamp (rd src i),
         j + 1 := ToUint8Clamp (rd src (i + 1)),
         j + 2 := ToUint8Clamp (rd src (i + 2)),
         j + 3 := ToUint8Clamp (rd src (i + 3))]"

text \<open>The loop \<open>for (let i = i0; i < n; i += 4) body\<close> over a state \<open>s\<close>.\<close>

function for_step4 :: "nat \<Rightarrow> nat \<Rightarrow> (nat \<Rightarrow> 's \<Rightarrow> 's) \<Rightarrow> 's \<Rightarrow> 's" where
  "for_step4 i n body s = (if i < n then for_step4 (i + 4) n body (body i s) else s)"
  by pat_completeness auto
termination
  by (relation "measure (\<lambda>(i, n, body, s). n - i)") auto

declare for_step4.simps [simp del]

text \<open>
  The loop \<open>for (let i = i0; i < n; i += step) body\<close>, which does not return when
  \<open>step\<close> is 0 and \<open>i0 < n\<close>: not returning is the value \<open>None\<close>.
\<close>

partial_function (option) for_step ::
  "nat \<Rightarrow> nat \<Rightarrow> nat \<Rightarrow> (nat \<Rightarrow> 's \<Rightarrow> 's option) \<Rightarrow> 's \<Rightarrow> 's option" where
  "for_step i n step body s =
     (if i < n then Option.bind (body i s) (for_step (i + step) n step body) else Some s)"

declare for_step.simps [code]

section \<open>Layers (layerUtils)\<close>

text \<open>
  A layer object. The fields \<open>id\<close>, \<open>color\<close> and \<open>mask\<close> are called \<open>layer_id\<close>,
  \<open>layer_color\<close> and \<open>layer_mask\<close>; \<open>tolerance\<close>, \<open>mask\<close> and \<open>paintData\<close> may be
  absent (\<open>null\<close> or \<open>undefined\<close>).
\<close>

record layer =
  layer_id :: string
  layer_color :: color
  name :: string
  visible :: bool
  tolerance :: "real option"
  layer_mask :: "byte list option"
  paintData :: "byte list option"

definition createFullMask :: "nat \<Rightarrow> nat \<Rightarrow> byte list" where
  "createFullMask w h = replicate (w * h) 1"

text \<open>\<open>layer.tolerance ?? 10\<close>\<close>

definition tol_of :: "layer \<Rightarrow> real" where
  "tol_of l = (case tolerance l of None \<Rightarrow> 10 | Some t \<Rightarrow> t)"

text \<open>\<open>mask && mask[idx] === 1\<close>\<close>

definition mask_keeps :: "byte list option \<Rightarrow> nat \<Rightarrow> bool" where
  "mask_keeps msk idx = (case msk of None \<Rightarrow> False | Some m \<Rightarrow> rd m idx = Some 1)"

text \<open>
  The call \<open>colorMatches(src[i], src[i + 1], src[i + 2], tr, tg, tb, tol)\<close>: with an
  \<open>undefined\<close> channel the distance is NaN and the comparison is false.
\<close>

definition colorMatchesAt :: "byte list \<Rightarrow> nat \<Rightarrow> color \<Rightarrow> real \<Rightarrow> bool" where
  "colorMatchesAt src i c tol =
     (case (rd src i, rd src (i + 1), rd src (i + 2)) of
        (Some pr, Some pg, Some pb) \<Rightarrow>
          colorMatches pr pg pb (real (red c)) (real (green c)) (real (blue c)) tol
      | _ \<Rightarrow> False)"

section \<open>Image utilities (imageUtils)\<close>

subsection \<open>Inversion\<close>

definition invert_step :: "nat \<Rightarrow> byte list \<Rightarrow> byte list" where
  "invert_step i d =
     (let d1 = d[i := ToUint8Clamp (map_option (\<lambda>v. 255 - v) (rd d i))];
          d2 = d1[i + 1 := ToUint8Clamp (map_option (\<lambda>v. 255 - v) (rd d1 (i + 1)))];
          d3 = d2[i + 2 := ToUint8Clamp (map_option (\<lambda>v. 255 - v) (rd d2 (i + 2)))]
      in d3)"

definition invertImageData :: "raster \<Rightarrow> raster" where
  "invertImageData imageData =
     imageData\<lparr>data := for_step4 0 (length (data imageData)) invert_step (data imageData)\<rparr>"

subsection \<open>Export of one layer, and of a selection of layers\<close>

definition exportLayerToImageData :: "raster \<Rightarrow> layer \<Rightarrow> raster" where
  "exportLayerToImageData originalImageData layer =
     (let w = width originalImageData; h = height originalImageData;
          src = data originalImageData;
          out = new_ImageData w h;
          msk = layer_mask layer;
          tol = tol_of layer;
          c = layer_color layer
      in out\<lparr>data := for_step4 0 (length src)
            (\<lambda>i outData.
               let idx = i div 4;
                   keep = mask_keeps msk idx;
                   match = colorMatchesAt src i c tol
               in if keep \<and> match \<and> gt0 (rd src (i + 3))
                  then copy_px src i outData i else outData)
            (data out)\<rparr>)"

text \<open>
  The body of the inner loop of \<open>exportReconstructedImageData\<close>: the pixel of one layer
  at byte offset \<open>i\<close> (its kept and matching source pixel, under its paint), blended over
  the result.
\<close>

definition composite_layer :: "byte list \<Rightarrow> nat \<Rightarrow> layer \<Rightarrow> byte list \<Rightarrow> byte list" where
  "composite_layer src i layer result =
     (let idx = i div 4;
          msk = layer_mask layer;
          tol = tol_of layer;
          c = layer_color layer;
          (lr, lg, lb, la) =
            (if mask_keeps msk idx \<and> colorMatchesAt src i c tol \<and> gt0 (rd src (i + 3))
             then (num (rd src i), num (rd src (i + 1)), num (rd src (i + 2)), num (rd src (i + 3)))
             else (0, 0, 0, 0));
          (lr, lg, lb, la) =
            (case paintData layer of
               None \<Rightarrow> (lr, lg, lb, la)
             | Some pd \<Rightarrow>
                 if gt0 (rd pd (i + 3)) then
                   (let pA = num (rd pd (i + 3)) / 255 in
                    if la > 0 then
                      (let bA = la / 255;
                           oA = pA + bA * (1 - pA)
                       in ((num (rd pd i) * pA + lr * bA * (1 - pA)) / oA,
                           (num (rd pd (i + 1)) * pA + lg * bA * (1 - pA)) / oA,
                           (num (rd pd (i + 2)) * pA + lb * bA * (1 - pA)) / oA,
                           Math_round (oA * 255)))
                    else (num (rd pd i), num (rd pd (i + 1)), num (rd pd (i + 2)),
                          num (rd pd (i + 3))))
                 else (lr, lg, lb, la))
      in if la > 0 then
           (let sA = la / 255;
                dA = num (rd result (i + 3)) / 255;
                oA = sA + dA * (1 - sA)
            in if oA > 0 then
                 (let r1 = result[i := ToUint8Clamp (Some (Math_round
                             ((lr * sA + num (rd result i) * dA * (1 - sA)) / oA)))];
                      r2 = r1[i + 1 := ToUint8Clamp (Some (Math_round
                             ((lg * sA + num (rd r1 (i + 1)) * dA * (1 - sA)) / oA)))];
                      r3 = r2[i + 2 := ToUint8Clamp (Some (Math_round
                             ((lb * sA + num (rd r2 (i + 2)) * dA * (1 - sA)) / oA)))];
                      r4 = r3[i + 3 := ToUint8Clamp (Some (Math_round (oA * 255)))]
                  in r4)
               else result)
         else result)"

text \<open>
  \<open>layerIds\<close> is a \<open>Set\<close> or an array of ids, here the list of its members; \<open>ids.has\<close>
  is membership.
\<close>

definition exportReconstructedImageData :: "raster \<Rightarrow> layer list \<Rightarrow> string list \<Rightarrow> raster" where
  "exportReconstructedImageData originalImageData layers layerIds =
     (let selected = filter (\<lambda>l. layer_id l \<in> set layerIds) layers
      in if length selected = 0
         then new_ImageData (width originalImageData) (height originalImageData)
         else
           (let w = width originalImageData; h = height originalImageData;
                src = data originalImageData;
                len = w * h * 4;
                result = replicate len 0
            in \<lparr>width = w, height = h,
                data = for_step4 0 len
                  (\<lambda>i result. fold (composite_layer src i) (rev selected) result) result\<rparr>))"

subsection \<open>Rotate, flip and crop of a raster\<close>

definition rotateImageData :: "raster \<Rightarrow> int \<Rightarrow> raster" where
  "rotateImageData imageData degrees =
     (let w = width imageData; h = height imageData; d = data imageData;
          out = replicate (length d) 0
      in if degrees = 180 then
           \<lparr>width = w, height = h,
            data = fold (\<lambda>y. fold (\<lambda>x out.
                     let i = (y * w + x) * 4;
                         j = ((h - 1 - y) * w + (w - 1 - x)) * 4
                     in copy_px d i out j) [0..<w]) [0..<h] out\<rparr>
         else if degrees = 90 then
           (let outW = h; outH = w
            in \<lparr>width = outW, height = outH,
                data = fold (\<lambda>y. fold (\<lambda>x out.
                         let i = (y * w + x) * 4;
                             j = (x * outW + (outW - 1 - y)) * 4
                         in copy_px d i out j) [0..<w]) [0..<h] out\<rparr>)
         else if degrees = - 90 then
           (let outW = h; outH = w
            in \<lparr>width = outW, height = outH,
                data = fold (\<lambda>y. fold (\<lambda>x out.
                         let i = (y * w + x) * 4;
                             j = ((outH - 1 - x) * outW + y) * 4
                         in copy_px d i out j) [0..<w]) [0..<h] out\<rparr>)
         else imageData)"

definition flipImageData :: "raster \<Rightarrow> bool \<Rightarrow> bool \<Rightarrow> raster" where
  "flipImageData imageData horizontal vertical =
     (let w = width imageData; h = height imageData; d = data imageData;
          copy = d
      in imageData\<lparr>data := fold (\<lambda>y. fold (\<lambda>x d.
                     let sx = (if horizontal then w - 1 - x else x);
                         sy = (if vertical then h - 1 - y else y);
                         i = (y * w + x) * 4;
                         j = (sy * w + sx) * 4
                     in copy_px copy j d i) [0..<w]) [0..<h] d\<rparr>)"

text \<open>The rectangle \<open>{ x, y, width, height }\<close> of a crop.\<close>

record rect =
  rect_x :: nat
  rect_y :: nat
  rect_width :: nat
  rect_height :: nat

definition cropImageData :: "raster \<Rightarrow> rect \<Rightarrow> raster" where
  "cropImageData imageData rect =
     (let x = rect_x rect; y = rect_y rect; cw = rect_width rect; ch = rect_height rect;
          out = new_ImageData cw ch;
          src = data imageData;
          w = width imageData
      in out\<lparr>data := fold (\<lambda>dy. fold (\<lambda>dx od.
                   let sx = x + dx;
                       sy = y + dy;
                       si = (sy * w + sx) * 4;
                       oi = (dy * cw + dx) * 4
                   in copy_px src si od oi) [0..<cw]) [0..<ch] (data out)\<rparr>)"

subsection \<open>Rotate, flip and crop of a mask\<close>

definition cropMask :: "byte list \<Rightarrow> nat \<Rightarrow> rect \<Rightarrow> byte list" where
  "cropMask msk srcWidth rect =
     (let x = rect_x rect; y = rect_y rect; cw = rect_width rect; ch = rect_height rect;
          out = replicate (cw * ch) 0
      in fold (\<lambda>dy. fold (\<lambda>dx out.
                   let sx = x + dx;
                       sy = y + dy
                   in out[dy * cw + dx := ToUint8 (rd msk (sy * srcWidth + sx))])
                [0..<cw]) [0..<ch] out)"

definition rotateMask :: "byte list \<Rightarrow> nat \<Rightarrow> nat \<Rightarrow> int \<Rightarrow> byte list" where
  "rotateMask msk w h degrees =
     (let out = (if degrees = 90 \<or> degrees = - 90 then replicate (h * w) 0
                 else replicate (length msk) 0);
          outW = (if degrees = 90 \<or> degrees = - 90 then h else w);
          outH = (if degrees = 90 \<or> degrees = - 90 then w else h)
      in fold (\<lambda>y. fold (\<lambda>x out.
                   if degrees = 180 then
                     (let ox = w - 1 - x; oy = h - 1 - y
                      in out[oy * outW + ox := ToUint8 (rd msk (y * w + x))])
                   else if degrees = 90 then
                     (let ox = outW - 1 - y; oy = x
                      in out[oy * outW + ox := ToUint8 (rd msk (y * w + x))])
                   else if degrees = - 90 then
                     (let ox = y; oy = outH - 1 - x
                      in out[oy * outW + ox := ToUint8 (rd msk (y * w + x))])
                   else out)
                [0..<w]) [0..<h] out)"

definition flipMask :: "byte list \<Rightarrow> nat \<Rightarrow> nat \<Rightarrow> bool \<Rightarrow> bool \<Rightarrow> byte list" where
  "flipMask msk w h horizontal vertical =
     (let copy = msk
      in fold (\<lambda>y. fold (\<lambda>x m.
                   let sx = (if horizontal then w - 1 - x else x);
                       sy = (if vertical then h - 1 - y else y)
                   in m[y * w + x := ToUint8 (rd copy (sy * w + sx))])
                [0..<w]) [0..<h] msk)"

section \<open>Dominant colours (colorUtils.js)\<close>

text \<open>
  \<open>quantize(v, levels)\<close>; the channel \<open>v\<close> is a number read from the buffer, NaN
  (\<open>None\<close>) when the read was outside it, and then the result is NaN.
\<close>

definition quantize :: "real option \<Rightarrow> real \<Rightarrow> real option" where
  "quantize v levels = map_option (\<lambda>x. min (levels - 1) (of_int \<lfloor>(x / 255) * levels\<rfloor>)) v"

text \<open>
  The histogram \<open>count\<close>: an object whose keys are the strings \<open>`${qr},${qg},${qb}`\<close>,
  enumerated by \<open>Object.entries\<close> in the order of their insertion. It is an association
  list in that order, with the triple of quantized numbers itself as the key (distinct
  triples give distinct strings, and \<open>key.split(',').map(Number)\<close> gives the triple back).
\<close>

type_synonym qkey = "real option \<times> real option \<times> real option"

definition bump :: "qkey \<Rightarrow> (qkey \<times> nat) list \<Rightarrow> (qkey \<times> nat) list" where
  "bump key count =
     (if key \<in> fst ` set count
      then map (\<lambda>(k, c). if k = key then (k, c + 1) else (k, c)) count
      else count @ [(key, 1)])"

text \<open>The body of the two sampling loops, for the pixel at row \<open>y\<close> and column \<open>x\<close>.\<close>

definition sample_px ::
  "byte list \<Rightarrow> nat \<Rightarrow> real \<Rightarrow> nat \<Rightarrow> nat \<Rightarrow> (qkey \<times> nat) list \<Rightarrow> (qkey \<times> nat) list" where
  "sample_px d w levels y x count =
     (let i = (y * w + x) * 4;
          a = rd d (i + 3)
      in if lt128 a then count
         else
           (let qr = quantize (rd d i) levels;
                qg = quantize (rd d (i + 1)) levels;
                qb = quantize (rd d (i + 2)) levels;
                key = (qr, qg, qb)
            in bump key count))"

text \<open>
  An entry \<open>{ r, g, b, count }\<close> of the result before the sort: the centre of the bucket
  on each channel.
\<close>

definition bucket_centre :: "real \<Rightarrow> real option \<Rightarrow> real option" where
  "bucket_centre levels q = map_option (\<lambda>v. Math_round ((v + 1 / 2) * (255 / levels))) q"

text \<open>
  \<open>getDominantColors\<close>: the colours \<open>{ r, g, b }\<close> are triples of numbers. The sort by
  descending count is stable, as \<open>Array.prototype.sort\<close> is. The arguments \<open>maxColors\<close>
  and \<open>sampleStep\<close> are natural numbers, as the application passes them (20 and 10); with
  \<open>sampleStep = 0\<close> the loops do not end, and the result is \<open>None\<close>.
\<close>

definition getDominantColors :: "raster \<Rightarrow> nat \<Rightarrow> nat \<Rightarrow> qkey list option" where
  "getDominantColors imageData maxColors sampleStep =
     (let d = data imageData;
          w = width imageData;
          h = height imageData;
          levels = 12
      in Option.bind
           (for_step 0 h sampleStep
              (\<lambda>y. for_step 0 w sampleStep (\<lambda>x count. Some (sample_px d w levels y x count)))
              [])
           (\<lambda>count.
              let entries =
                    take maxColors
                      (sort_key (\<lambda>(rgb, c). - int c)
                         (map (\<lambda>((qr, qg, qb), c).
                                 ((bucket_centre levels qr, bucket_centre levels qg,
                                   bucket_centre levels qb), c)) count))
              in Some (map fst entries)))"

section \<open>The colour report (exportUtils)\<close>

text \<open>Numbers as text: \<open>String(n)\<close> and \<open>n.toString(16)\<close> for a natural number.\<close>

definition digit :: "nat \<Rightarrow> char" where
  "digit k = ''0123456789abcdef'' ! k"

fun toString10 :: "nat \<Rightarrow> string" where
  "toString10 n = (if n < 10 then [digit n] else toString10 (n div 10) @ [digit (n mod 10)])"

fun toString16 :: "nat \<Rightarrow> string" where
  "toString16 n = (if n < 16 then [digit n] else toString16 (n div 16) @ [digit (n mod 16)])"

declare toString10.simps [simp del] toString16.simps [simp del]

text \<open>
  Binary64 arithmetic. The result of an operation on doubles is its exact result rounded
  to the nearest double, to the one with an even significand at a tie: a multiple of
  \<open>2 ^ (e - 52)\<close> for a result from \<open>2 ^ e\<close> up to \<open>2 ^ (e + 1)\<close>, and a multiple of
  \<open>2 ^ - 1074\<close> below \<open>2 ^ - 1022\<close>. \<open>rne\<close> rounds to the nearest integer, ties to even;
  \<open>fl_scale\<close> writes a positive number as \<open>m * s\<close> with \<open>s\<close> a power of two and \<open>m\<close>
  from \<open>2 ^ 52\<close> up to \<open>2 ^ 53\<close>, in at most \<open>n\<close> doublings or halvings (1074 doublings
  reach the smallest exponent); \<open>fl\<close> is the rounding. Overflow to infinity, for
  results of \<open>2 ^ 1024\<close> and more, is not modelled. Natural numbers below \<open>2 ^ 53\<close>, such
  as a length or an index of an array, are doubles themselves.
\<close>

definition rne :: "real \<Rightarrow> int" where
  "rne x =
     (let f = \<lfloor>x\<rfloor>
      in if x - of_int f < 1 / 2 then f
         else if 1 / 2 < x - of_int f then f + 1
         else if even f then f else f + 1)"

fun fl_scale :: "nat \<Rightarrow> real \<Rightarrow> real \<Rightarrow> real \<times> real" where
  "fl_scale n m s =
     (if n = 0 then (m, s)
      else if m < 2 ^ 52 then fl_scale (n - 1) (2 * m) (s / 2)
      else if 2 ^ 53 \<le> m then fl_scale (n - 1) (m / 2) (2 * s)
      else (m, s))"

declare fl_scale.simps [simp del]

definition fl :: "real \<Rightarrow> real" where
  "fl x =
     (if x = 0 then 0
      else (let (m, s) = fl_scale 1074 \<bar>x\<bar> 1 in sgn x * of_int (rne m) * s))"

text \<open>
  \<open>x.toFixed(2)\<close> for a double \<open>x\<close> below \<open>10 ^ 21\<close>: the decimal text of the multiple of
  1/100 nearest to the exact value of \<open>x\<close>, the larger one at a tie.
\<close>

definition toFixed2 :: "real \<Rightarrow> string" where
  "toFixed2 x =
     (let neg = x < 0;
          n = nat \<lfloor>\<bar>x\<bar> * 100 + 1 / 2\<rfloor>
      in (if neg then ''-'' else '''')
         @ toString10 (n div 100) @ ''.'' @ [digit (n mod 100 div 10), digit (n mod 10)])"






section \<open>The handlers of the application (App)\<close>

text \<open>
  The part of the application state that the handlers below read and replace. The
  history snapshot, the image URL, the selection and the toasts of the handlers are left
  out.
\<close>

record app_state =
  dimensions :: "(nat \<times> nat) option"
  originalImageData :: "raster option"
  layers :: "layer list"

datatype js_error = TypeError

text \<open>
  \<open>layers.map((l) => ({ ...l, mask: f(l.mask) }))\<close> for an \<open>f\<close> that reads its argument
  as an array, which throws on a layer without mask.
\<close>

fun map_masks :: "(byte list \<Rightarrow> byte list) \<Rightarrow> layer list \<Rightarrow> js_error + layer list" where
  "map_masks f [] = Inr []"
| "map_masks f (l # ls) =
     (case layer_mask l of
        None \<Rightarrow> Inl TypeError
      | Some m \<Rightarrow>
          (case map_masks f ls of
             Inl e \<Rightarrow> Inl e
           | Inr ls' \<Rightarrow> Inr (l\<lparr>layer_mask := Some (f m)\<rparr> # ls')))"

definition handleRotate :: "int \<Rightarrow> app_state \<Rightarrow> js_error + app_state" where
  "handleRotate degrees s =
     (case (originalImageData s, dimensions s) of
        (Some img, Some (w, h)) \<Rightarrow>
          (let rotated = rotateImageData img degrees;
               newW = (if degrees = 90 \<or> degrees = - 90 then h else w);
               newH = (if degrees = 90 \<or> degrees = - 90 then w else h)
           in case map_masks (\<lambda>m. rotateMask m w h degrees) (layers s) of
                Inl e \<Rightarrow> Inl e
              | Inr newLayers \<Rightarrow>
                  Inr (s\<lparr>dimensions := Some (newW, newH),
                         originalImageData := Some rotated,
                         layers := newLayers\<rparr>))
      | _ \<Rightarrow> Inr s)"

text \<open>
  \<open>handleFlip\<close> copies each mask with \<open>new Uint8Array(l.mask)\<close>, which is the empty array
  for a layer without mask.
\<close>

definition handleFlip :: "bool \<Rightarrow> bool \<Rightarrow> app_state \<Rightarrow> app_state" where
  "handleFlip horizontal vertical s =
     (case (originalImageData s, dimensions s) of
        (Some img, Some (w, h)) \<Rightarrow>
          (let copy = \<lparr>width = w, height = h, data = data img\<rparr>;
               flipped = flipImageData copy horizontal vertical;
               newLayers = map (\<lambda>l.
                   let m = (case layer_mask l of None \<Rightarrow> [] | Some m \<Rightarrow> m)
                   in l\<lparr>layer_mask := Some (flipMask m w h horizontal vertical)\<rparr>) (layers s)
           in s\<lparr>originalImageData := Some flipped, layers := newLayers\<rparr>)
      | _ \<Rightarrow> s)"

definition handleCrop :: "rect \<Rightarrow> app_state \<Rightarrow> js_error + app_state" where
  "handleCrop rect s =
     (case (originalImageData s, dimensions s) of
        (Some img, Some (w, h)) \<Rightarrow>
          (let cropped = cropImageData img rect
           in case map_masks (\<lambda>m. cropMask m w rect) (layers s) of
                Inl e \<Rightarrow> Inl e
              | Inr newLayers \<Rightarrow>
                  Inr (s\<lparr>dimensions := Some (rect_width rect, rect_height rect),
                         originalImageData := Some cropped,
                         layers := newLayers\<rparr>))
      | _ \<Rightarrow> Inr s)"

text \<open>\<open>prev.findIndex(p)\<close>, with \<open>None\<close> for -1.\<close>

fun findIndex :: "('a \<Rightarrow> bool) \<Rightarrow> 'a list \<Rightarrow> nat option" where
  "findIndex p [] = None"
| "findIndex p (x # xs) = (if p x then Some 0 else map_option Suc (findIndex p xs))"

text \<open>
  The update that \<open>handleMoveLayerToIndex\<close> passes to \<open>setLayers\<close>. The two \<open>splice\<close>
  calls remove the element at \<open>fromIndex\<close> and insert it at \<open>target\<close>.
\<close>

definition handleMoveLayerToIndex :: "string \<Rightarrow> int \<Rightarrow> layer list \<Rightarrow> layer list" where
  "handleMoveLayerToIndex layerId toIndex prev =
     (case findIndex (\<lambda>l. layer_id l = layerId) prev of
        None \<Rightarrow> prev
      | Some fromIndex \<Rightarrow>
          (let target = max 0 (min (int (length prev) - 1) toIndex);
               target = (if int fromIndex < target then target - 1 else target)
           in if int fromIndex = target then prev
              else
                (let removed = prev ! fromIndex;
                     next1 = take fromIndex prev @ drop (Suc fromIndex) prev
                 in take (nat target) next1 @ [removed] @ drop (nat target) next1)))"

section \<open>Statements of the specification\<close>

text \<open>
  The index at which the specification puts a layer that is moved from position \<open>i\<close> to the
  absolute index \<open>toIndex\<close> in a list of \<open>n\<close> layers: \<open>toIndex\<close> clamped into the range
  from 0 to \<open>n - 1\<close>, and decremented by one when the move is forward past \<open>i\<close>.
\<close>

definition spec_clamped_index :: "nat \<Rightarrow> int \<Rightarrow> int" where
  "spec_clamped_index n toIndex =
     (if toIndex < 0 then 0 else if int n - 1 < toIndex then int n - 1 else toIndex)"

definition spec_move_target :: "nat \<Rightarrow> nat \<Rightarrow> int \<Rightarrow> nat" where
  "spec_move_target n i toIndex =
     (if int i < spec_clamped_index n toIndex
      then nat (spec_clamped_index n toIndex) - 1
      else nat (spec_clamped_index n toIndex))"

text \<open>
  The mask-length invariant of the application state: an image is loaded, the dimensions
  are those of the image buffer, and every layer has a mask of width times height cells.
\<close>

definition mask_invariant :: "app_state \<Rightarrow> bool" where
  "mask_invariant s =
     (case (originalImageData s, dimensions s) of
        (Some img, Some (w, h)) \<Rightarrow>
          valid_raster img \<and> width img = w \<and> height img = h
          \<and> list_all (\<lambda>l. case layer_mask l of None \<Rightarrow> False | Some m \<Rightarrow> length m = w * h)
               (layers s)
      | _ \<Rightarrow> False)"




text \<open>
  The percentage of \<open>n\<close> pixels among \<open>totalPixels\<close>, computed in binary64 (the quotient, then
  the product by 100) and written with two decimal places.
\<close>

definition spec_percentage :: "nat \<Rightarrow> nat \<Rightarrow> string" where
  "spec_percentage n totalPixels = toFixed2 (fl (fl (real n / real totalPixels) * 100))"



text \<open>A text that holds no separator of the report: no comma, no carriage return.\<close>

definition plain :: "string \<Rightarrow> bool" where
  "plain s = (CHR '','' \<notin> set s \<and> CHR 0x0D \<notin> set s)"

section \<open>Properties of the colour matcher\<close>

text \<open>
  The comparison of the two square roots is a comparison of the squares, which gives
  an equation that evaluates on numerals.
\<close>

lemma colorMatches_code [code]:
  "colorMatches pr pg pb tr tg tb t =
     (let d2 = (pr - tr)\<^sup>2 + (pg - tg)\<^sup>2 + (pb - tb)\<^sup>2
      in if t \<le> 0 then d2 = 0 else d2 * 10000 \<le> t\<^sup>2 * 195075)"
proof -
  define d2 where "d2 = (pr - tr)\<^sup>2 + (pg - tg)\<^sup>2 + (pb - tb)\<^sup>2"
  have d2: "0 \<le> d2" by (simp add: d2_def)
  show ?thesis
  proof (cases "t \<le> 0")
    case True
    then show ?thesis using d2
      by (simp add: colorMatches_def toleranceToDistance_def rgbDistance_def
          d2_def [symmetric] Let_def)
  next
    case False
    then have t: "0 < t" by simp
    have "(sqrt d2 \<le> t / 100 * sqrt 195075) = (sqrt d2 \<le> sqrt ((t / 100)\<^sup>2 * 195075))"
      using t by (simp add: real_sqrt_mult)
    also have "\<dots> = (d2 \<le> (t / 100)\<^sup>2 * 195075)" by simp
    also have "\<dots> = (d2 * 10000 \<le> t\<^sup>2 * 195075)" by (simp add: power_divide field_simps)
    finally show ?thesis using False
      by (simp add: colorMatches_def toleranceToDistance_def rgbDistance_def
          MAX_RGB_DISTANCE_def d2_def [symmetric] Let_def)
  qed
qed

lemma toleranceToDistance_nonneg: "0 \<le> toleranceToDistance t"
  by (simp add: toleranceToDistance_def MAX_RGB_DISTANCE_def)

lemma toleranceToDistance_mono: "t1 \<le> t2 \<Longrightarrow> toleranceToDistance t1 \<le> toleranceToDistance t2"
  by (auto simp: toleranceToDistance_def MAX_RGB_DISTANCE_def divide_right_mono
      intro!: mult_right_mono mult_nonneg_nonneg)

lemma sq_diff_le:
  fixes x y :: real
  assumes "0 \<le> x" "x \<le> 255" "0 \<le> y" "y \<le> 255"
  shows "(x - y)\<^sup>2 \<le> 65025"
proof -
  have "\<bar>x - y\<bar> \<le> 255" using assms by linarith
  then have "\<bar>x - y\<bar>\<^sup>2 \<le> 255\<^sup>2" by (rule power_mono) simp
  then show ?thesis by simp
qed

lemma colorMatches_full_tolerance:
  assumes "0 \<le> pr" "pr \<le> 255" "0 \<le> pg" "pg \<le> 255" "0 \<le> pb" "pb \<le> 255"
    and "0 \<le> tr" "tr \<le> 255" "0 \<le> tg" "tg \<le> 255" "0 \<le> tb" "tb \<le> 255"
  shows "colorMatches pr pg pb tr tg tb 100"
proof -
  have "(pr - tr)\<^sup>2 \<le> 65025" "(pg - tg)\<^sup>2 \<le> 65025" "(pb - tb)\<^sup>2 \<le> 65025"
    using assms by (simp_all add: sq_diff_le)
  then show ?thesis by (simp add: colorMatches_code Let_def)
qed

lemma MAX_RGB_DISTANCE_bounds: "441.67 < MAX_RGB_DISTANCE" "MAX_RGB_DISTANCE < 441.68"
proof -
  show "441.67 < MAX_RGB_DISTANCE"
    unfolding MAX_RGB_DISTANCE_def by (rule real_less_rsqrt) (simp add: power2_eq_square)
  show "MAX_RGB_DISTANCE < 441.68"
    unfolding MAX_RGB_DISTANCE_def by (rule real_less_lsqrt) (simp_all add: power2_eq_square)
qed

text \<open>
  Claim C4. \<open>toleranceToDistance t\<close> is 0 for \<open>t \<le> 0\<close> and \<open>(t/100) * sqrt (3 * 255\<^sup>2)\<close>
  otherwise. On the interval from 0 to 100 it is monotonically non-decreasing; at
  tolerance 0 the threshold is 0, so that only the exact colour matches; at tolerance 100
  the threshold is the largest distance between two RGB colours, which lies between 441.67
  and 441.68, so that any two colours with channels between 0 and 255 match.
\<close>

theorem toleranceToDistance_spec:
  "toleranceToDistance t = (if t \<le> 0 then 0 else (t / 100) * sqrt (3 * 255\<^sup>2))
   \<and> (0 \<le> t1 \<and> t1 \<le> t2 \<and> t2 \<le> 100 \<longrightarrow> toleranceToDistance t1 \<le> toleranceToDistance t2)
   \<and> toleranceToDistance 0 = 0
   \<and> (colorMatches pr pg pb tr tg tb 0 \<longleftrightarrow> pr = tr \<and> pg = tg \<and> pb = tb)
   \<and> toleranceToDistance 100 = rgbDistance 0 0 0 255 255 255
   \<and> 441.67 < toleranceToDistance 100 \<and> toleranceToDistance 100 < 441.68
   \<and> (valid_color p \<and> valid_color c \<longrightarrow>
        colorMatches (real (red p)) (real (green p)) (real (blue p))
                     (real (red c)) (real (green c)) (real (blue c)) 100)"
proof -
  have a: "toleranceToDistance t = (if t \<le> 0 then 0 else (t / 100) * sqrt (3 * 255\<^sup>2))"
    by (simp add: toleranceToDistance_def MAX_RGB_DISTANCE_def power2_eq_square)
  have b: "0 \<le> t1 \<and> t1 \<le> t2 \<and> t2 \<le> 100 \<longrightarrow> toleranceToDistance t1 \<le> toleranceToDistance t2"
    by (simp add: toleranceToDistance_mono)
  have c: "toleranceToDistance 0 = 0"
    by (simp add: toleranceToDistance_def)
  have "(pr - tr)\<^sup>2 + (pg - tg)\<^sup>2 + (pb - tb)\<^sup>2 = 0 \<longleftrightarrow> pr = tr \<and> pg = tg \<and> pb = tb"
    by (simp add: sum_power2_eq_zero_iff add_nonneg_eq_0_iff)
  then have d: "colorMatches pr pg pb tr tg tb 0 \<longleftrightarrow> pr = tr \<and> pg = tg \<and> pb = tb"
    by (simp add: colorMatches_code Let_def)
  have e: "toleranceToDistance 100 = rgbDistance 0 0 0 255 255 255"
    by (simp add: toleranceToDistance_def MAX_RGB_DISTANCE_def rgbDistance_def)
  have m: "toleranceToDistance 100 = MAX_RGB_DISTANCE"
    by (simp add: toleranceToDistance_def)
  have f: "441.67 < toleranceToDistance 100" "toleranceToDistance 100 < 441.68"
    using MAX_RGB_DISTANCE_bounds by (simp_all add: m)
  have g: "valid_color p \<and> valid_color c \<longrightarrow>
        colorMatches (real (red p)) (real (green p)) (real (blue p))
                     (real (red c)) (real (green c)) (real (blue c)) 100"
    by (auto simp: valid_color_def intro!: colorMatches_full_tolerance)
  from a b c d e f g show ?thesis by blast
qed

theorem toleranceToDistance_spec_witness:
  "(0::real) \<le> 25 \<and> (25::real) \<le> 75 \<and> (75::real) \<le> 100
   \<and> toleranceToDistance 25 \<le> toleranceToDistance 75
   \<and> valid_color \<lparr>red = 0, green = 0, blue = 0\<rparr>
   \<and> valid_color \<lparr>red = 255, green = 255, blue = 255\<rparr>
   \<and> colorMatches 0 0 0 255 255 255 100"
  using toleranceToDistance_spec [of 50 25 75 0 0 0 0 0 0
      "\<lparr>red = 0, green = 0, blue = 0\<rparr>" "\<lparr>red = 255, green = 255, blue = 255\<rparr>"]
  by (simp add: valid_color_def)

text \<open>
  Claim C5. A colour matches itself at every tolerance \<open>t \<ge> 0\<close>, and a pixel that matches
  a target at tolerance \<open>t1\<close> matches it at every tolerance \<open>t2 \<ge> t1\<close>.
\<close>

theorem colorMatches_self_and_monotone:
  "(0 \<le> t \<longrightarrow> colorMatches cr cg cb cr cg cb t)
   \<and> (t1 \<le> t2 \<and> colorMatches pr pg pb tr tg tb t1 \<longrightarrow> colorMatches pr pg pb tr tg tb t2)"
proof -
  have "colorMatches cr cg cb cr cg cb t"
    by (simp add: colorMatches_def rgbDistance_def toleranceToDistance_nonneg)
  moreover have "colorMatches pr pg pb tr tg tb t2"
    if "t1 \<le> t2" "colorMatches pr pg pb tr tg tb t1"
    using that toleranceToDistance_mono [of t1 t2] by (simp add: colorMatches_def Let_def)
  ultimately show ?thesis by blast
qed

theorem colorMatches_self_and_monotone_witness:
  "(0::real) \<le> 10 \<and> colorMatches 1 2 3 1 2 3 10
   \<and> (10::real) \<le> 20 \<and> colorMatches 10 20 30 12 22 32 10 \<and> colorMatches 10 20 30 12 22 32 20"
proof -
  have h: "colorMatches 10 20 30 12 22 32 10" by (simp add: colorMatches_code)
  show ?thesis
    using h colorMatches_self_and_monotone [of 10 1 2 3 10 20 10 20 30 12 22 32] by simp
qed

section \<open>Properties of typed arrays and of the loops\<close>

lemma ToUint8Clamp_of_nat: "m \<le> 255 \<Longrightarrow> ToUint8Clamp (Some (real m)) = of_nat m"
  by (cases "m = 0"; cases "m = 255") (auto simp: ToUint8Clamp_def Let_def)

lemma unat_byte_le: "unat (v::byte) \<le> 255"
  using unsigned_less [of v, where ?'a = nat] by simp

lemma ToUint8Clamp_copy: "ToUint8Clamp (Some (real (unat (v::byte)))) = v"
  using ToUint8Clamp_of_nat [of "unat v"] unat_byte_le [of v] by simp

lemma ToUint8Clamp_inv: "ToUint8Clamp (Some (255 - real (unat (v::byte)))) = 255 - v"
proof -
  have "255 - real (unat v) = real (255 - unat v)"
    using unat_byte_le [of v] by (simp add: of_nat_diff)
  then have "ToUint8Clamp (Some (255 - real (unat v))) = of_nat (255 - unat v)"
    by (simp add: ToUint8Clamp_of_nat)
  also have "\<dots> = 255 - v"
    using unat_byte_le [of v] by (simp add: of_nat_diff)
  finally show ?thesis .
qed

lemma ToUint8Clamp_rd: "ToUint8Clamp (rd a i) = (if i < length a then a ! i else 0)"
proof (cases "i < length a")
  case True
  then have "rd a i = Some (real (unat (a ! i)))" by (simp only: rd_def if_True)
  then show ?thesis using True by (simp only: ToUint8Clamp_copy if_True)
next
  case False
  then show ?thesis by (simp add: rd_def ToUint8Clamp_def)
qed

lemma ToUint8_copy: "ToUint8 (Some (real (unat (v::byte)))) = v"
proof -
  have "\<lfloor>real (unat v)\<rfloor> = int (unat v)" by (rule floor_of_nat)
  moreover have "(0::real) \<le> real (unat v)" by (rule of_nat_0_le_iff)
  ultimately have "ToUint8 (Some (real (unat v))) = of_int (int (unat v))"
    unfolding ToUint8_def by (simp only: option.case if_True)
  then show ?thesis by simp
qed

lemma ToUint8_rd: "ToUint8 (rd a i) = (if i < length a then a ! i else 0)"
proof (cases "i < length a")
  case True
  then have "rd a i = Some (real (unat (a ! i)))" by (simp only: rd_def if_True)
  then show ?thesis using True by (simp only: ToUint8_copy if_True)
next
  case False
  then show ?thesis by (simp add: rd_def ToUint8_def)
qed

lemma length_copy_px [simp]: "length (copy_px src i out j) = length out"
  by (simp add: copy_px_def)

lemma copy_px_nth:
  "k < length out \<Longrightarrow>
   copy_px src i out j ! k =
     (if j \<le> k \<and> k < j + 4 then ToUint8Clamp (rd src (i + (k - j))) else out ! k)"
proof -
  assume k: "k < length out"
  consider "k = j" | "k = j + 1" | "k = j + 2" | "k = j + 3" | "k < j \<or> j + 4 \<le> k"
    by linarith
  then show ?thesis
    using k by cases (auto simp: copy_px_def nth_list_update)
qed

text \<open>
  A loop over a buffer whose body rewrites only the four bytes from \<open>i\<close> on, each from
  its own old value: the byte at \<open>k\<close> is rewritten by the round that starts at
  \<open>k - (k - i0) mod 4\<close>, when the loop reaches it.
\<close>

lemma for_step4_length:
  "(\<And>i s. length (body i s) = length (s :: 'a list)) \<Longrightarrow>
   length (for_step4 i n body s) = length s"
proof (induction i n body s rule: for_step4.induct)
  case (1 i n body s)
  then show ?case by (subst for_step4.simps) simp
qed

lemma for_step4_nth:
  "(\<And>i s. length (body i s) = length (s :: 'a list)) \<Longrightarrow>
   (\<And>i s k. k < length s \<Longrightarrow>
        body i s ! k = (if i \<le> k \<and> k < i + 4 then F i k (s ! k) else s ! k)) \<Longrightarrow>
   k < length s \<Longrightarrow>
   for_step4 i n body s ! k =
     (if i \<le> k \<and> k - (k - i) mod 4 < n then F (k - (k - i) mod 4) k (s ! k) else s ! k)"
proof (induction i n body s rule: for_step4.induct)
  case (1 i n body s)
  note len = "1.prems"(1) and body = "1.prems"(2) and k = "1.prems"(3)
  show ?case
  proof (cases "i < n")
    case False
    have "n \<le> k - (k - i) mod 4" if "i \<le> k"
    proof -
      have "(k - i) mod 4 \<le> k - i" by simp
      with that False show ?thesis by linarith
    qed
    with False show ?thesis by (subst for_step4.simps) auto
  next
    case True
    have k': "k < length (body i s)" using k len by simp
    have step: "for_step4 i n body s ! k = for_step4 (i + 4) n body (body i s) ! k"
      using True by (subst for_step4.simps) simp
    have IH: "for_step4 (i + 4) n body (body i s) ! k =
        (if i + 4 \<le> k \<and> k - (k - (i + 4)) mod 4 < n
         then F (k - (k - (i + 4)) mod 4) k (body i s ! k) else body i s ! k)"
      by (rule "1.IH" [OF True len body k'])
    show ?thesis
    proof (cases "i + 4 \<le> k")
      case far: True
      then have "k - i = (k - (i + 4)) + 4" by simp
      then have m: "(k - (i + 4)) mod 4 = (k - i) mod 4" by (simp only: mod_add_self2)
      have "body i s ! k = s ! k" using far k body [of k s i] by simp
      with far m step IH show ?thesis by simp
    next
      case near: False
      show ?thesis
      proof (cases "i \<le> k")
        case True
        with near have "(k - i) mod 4 = k - i" by simp
        with True near \<open>i < n\<close> step IH k body [of k s i] show ?thesis by simp
      next
        case False
        with near step IH k body [of k s i] show ?thesis by simp
      qed
    qed
  qed
qed

section \<open>Properties of the inversion\<close>

lemma inv_rd:
  "i < length d \<Longrightarrow> ToUint8Clamp (map_option (\<lambda>v. 255 - v) (rd d i)) = 255 - d ! i"
  unfolding rd_def by (simp only: if_True option.map ToUint8Clamp_inv)

lemma length_invert_step [simp]: "length (invert_step i d) = length d"
  by (simp add: invert_step_def Let_def)

lemma invert_step_nth:
  "k < length d \<Longrightarrow>
   invert_step i d ! k = (if i \<le> k \<and> k < i + 3 then 255 - d ! k else d ! k)"
proof -
  assume k: "k < length d"
  consider "k = i" | "k = i + 1" | "k = i + 2" | "k < i \<or> i + 3 \<le> k" by linarith
  then show ?thesis
    using k by cases (auto simp: invert_step_def Let_def nth_list_update inv_rd)
qed

lemma invertImageData_nth:
  assumes "k < length (data img)"
  shows "data (invertImageData img) ! k =
           (if k mod 4 = 3 then data img ! k else 255 - data img ! k)"
proof -
  have body: "invert_step i s ! j =
      (if i \<le> j \<and> j < i + 4 then (if j < i + 3 then 255 - s ! j else s ! j) else s ! j)"
    if "j < length s" for i s j
    using that by (simp add: invert_step_nth)
  have "for_step4 0 (length (data img)) invert_step (data img) ! k =
      (if 0 \<le> k \<and> k - (k - 0) mod 4 < length (data img)
       then (if k < (k - (k - 0) mod 4) + 3 then 255 - data img ! k else data img ! k)
       else data img ! k)"
    by (rule for_step4_nth [where F = "\<lambda>i j v. if j < i + 3 then 255 - v else v"])
      (simp_all add: body assms)
  moreover have "k - k mod 4 < length (data img)" using assms by linarith
  moreover have "k < k - k mod 4 + 3 \<longleftrightarrow> k mod 4 \<noteq> 3"
  proof -
    have "k mod 4 \<le> k" by simp
    moreover have "k mod 4 < 4" by simp
    ultimately show ?thesis by linarith
  qed
  ultimately show ?thesis by (simp add: invertImageData_def)
qed

lemma length_invertImageData [simp]:
  "length (data (invertImageData img)) = length (data img)"
  by (simp add: invertImageData_def for_step4_length)

text \<open>
  Claim C10. \<open>invertImageData\<close> keeps the dimensions and the length of the buffer, maps
  every red, green and blue byte \<open>v\<close> to \<open>255 - v\<close> and keeps every alpha byte (the
  bytes at the indices \<open>k\<close> with \<open>k mod 4 = 3\<close>); applied twice it gives the raster back.
\<close>

theorem invertImageData_involution:
  "width (invertImageData img) = width img \<and> height (invertImageData img) = height img
   \<and> length (data (invertImageData img)) = length (data img)
   \<and> (\<forall>k < length (data img).
        data (invertImageData img) ! k = (if k mod 4 = 3 then data img ! k else 255 - data img ! k))
   \<and> invertImageData (invertImageData img) = img"
proof -
  have "data (invertImageData (invertImageData img)) = data img"
  proof (rule nth_equalityI)
    show "length (data (invertImageData (invertImageData img))) = length (data img)"
      by simp
    fix k assume "k < length (data (invertImageData (invertImageData img)))"
    then have k: "k < length (data img)" by simp
    then have k': "k < length (data (invertImageData img))" by simp
    show "data (invertImageData (invertImageData img)) ! k = data img ! k"
      by (simp add: invertImageData_nth [OF k'] invertImageData_nth [OF k])
  qed
  then have "invertImageData (invertImageData img) = img"
    by (simp add: invertImageData_def)
  then show ?thesis
    using invertImageData_nth by (simp add: invertImageData_def for_step4_length)
qed

theorem invertImageData_involution_witness:
  "(2::nat) < length (data \<lparr>width = 1, height = 2, data = [10, 20, 30, 40, 0, 255, 128, 7]\<rparr>)
   \<and> data (invertImageData \<lparr>width = 1, height = 2, data = [10, 20, 30, 40, 0, 255, 128, 7]\<rparr>) ! 2 = 225
   \<and> invertImageData (invertImageData \<lparr>width = 1, height = 2, data = [10, 20, 30, 40, 0, 255, 128, 7]\<rparr>)
       = \<lparr>width = 1, height = 2, data = [10, 20, 30, 40, 0, 255, 128, 7]\<rparr>"
  using invertImageData_involution [of "\<lparr>width = 1, height = 2, data = [10, 20, 30, 40, 0, 255, 128, 7]\<rparr>"]
  by simp

section \<open>Properties of the exports\<close>

lemma rd_bounds:
  assumes "i < length a"
  obtains v where "rd a i = Some v" "0 \<le> v" "v \<le> 255"
proof -
  have "real (unat (a ! i)) \<le> real 255" by (rule of_nat_mono) (rule unat_byte_le)
  then have "real (unat (a ! i)) \<le> 255" by (simp only: of_nat_numeral)
  moreover have "0 \<le> real (unat (a ! i))" by (rule of_nat_0_le_iff)
  moreover have "rd a i = Some (real (unat (a ! i)))" using assms by (simp only: rd_def if_True)
  ultimately show ?thesis using that by blast
qed

lemma colorMatchesAt_full_tolerance:
  assumes "i + 2 < length src" "valid_color c"
  shows "colorMatchesAt src i c 100"
proof -
  from assms(1) have "i < length src" "i + 1 < length src" by simp_all
  then obtain pr pg where r: "rd src i = Some pr" "0 \<le> pr" "pr \<le> 255"
    and g: "rd src (i + 1) = Some pg" "0 \<le> pg" "pg \<le> 255"
    by (metis rd_bounds)
  from assms(1) obtain pb where b: "rd src (i + 2) = Some pb" "0 \<le> pb" "pb \<le> 255"
    by (metis rd_bounds)
  have "colorMatches pr pg pb (real (red c)) (real (green c)) (real (blue c)) 100"
    using r g b assms(2) by (intro colorMatches_full_tolerance) (simp_all add: valid_color_def)
  then show ?thesis using r(1) g(1) b(1) by (simp add: colorMatchesAt_def)
qed

lemma rd_alpha_255: "i < length a \<Longrightarrow> a ! i = 255 \<Longrightarrow> gt0 (rd a i)"
  by (simp add: rd_def gt0_def)

lemma mask_keeps_full: "idx < w * h \<Longrightarrow> mask_keeps (Some (createFullMask w h)) idx"
  by (simp add: mask_keeps_def createFullMask_def rd_def)

text \<open>
  Claim C1. For a raster in which the alpha of every pixel is 255, and a layer whose mask
  is the full mask of the raster's dimensions and whose tolerance is 100, the export of the
  layer is the source raster, byte for byte. The colour of the layer is a colour of the
  data model, with channels from 0 to 255.
\<close>

theorem exportLayerToImageData_opaque_full:
  assumes "valid_raster src"
    and "\<forall>p < width src * height src. data src ! (4 * p + 3) = 255"
    and "layer_mask l = Some (createFullMask (width src) (height src))"
    and "tolerance l = Some 100"
    and "valid_color (layer_color l)"
  shows "exportLayerToImageData src l = src"
proof -
  let ?w = "width src" and ?h = "height src" and ?d = "data src"
  let ?n = "?w * ?h * 4"
  let ?cond = "\<lambda>i. mask_keeps (layer_mask l) (i div 4) \<and> colorMatchesAt ?d i (layer_color l) (tol_of l)
                 \<and> gt0 (rd ?d (i + 3))"
  let ?body = "\<lambda>i outData. if ?cond i then copy_px ?d i outData i else outData"
  let ?F = "\<lambda>i k v. if ?cond i then ToUint8Clamp (rd ?d k) else v"
  have len: "length ?d = ?n" using assms(1) by (simp add: valid_raster_def)
  have tol: "tol_of l = 100" using assms(4) by (simp add: tol_of_def)
  have cond: "?cond i" if "i mod 4 = 0" "i < ?n" for i
  proof -
    from that have i3: "i + 3 < ?n" by presburger
    from that have p: "i div 4 < ?w * ?h" by simp
    from that have i4: "4 * (i div 4) = i" by presburger
    have "mask_keeps (layer_mask l) (i div 4)"
      using p by (simp add: assms(3) mask_keeps_full)
    moreover have "colorMatchesAt ?d i (layer_color l) (tol_of l)"
      using i3 len assms(5) by (simp add: tol colorMatchesAt_full_tolerance)
    moreover have "?d ! (4 * (i div 4) + 3) = 255" using assms(2) p by blast
    then have "gt0 (rd ?d (i + 3))" using i3 len by (simp add: i4 rd_alpha_255)
    ultimately show ?thesis by simp
  qed
  have body: "?body i s ! k = (if i \<le> k \<and> k < i + 4 then ?F i k (s ! k) else s ! k)"
    if "k < length s" for i s k
    using that by (simp add: copy_px_nth)
  have "for_step4 0 ?n ?body (replicate ?n 0) = ?d"
  proof (rule nth_equalityI)
    show "length (for_step4 0 ?n ?body (replicate ?n 0)) = length ?d"
      by (simp add: for_step4_length len)
  next
    fix k assume "k < length (for_step4 0 ?n ?body (replicate ?n 0))"
    then have k: "k < ?n" by (simp add: for_step4_length)
    then have k': "k < length (replicate ?n (0::byte))" by simp
    have blk: "k - k mod 4 < ?n" "(k - k mod 4) mod 4 = 0"
      using k by presburger+
    have "for_step4 0 ?n ?body (replicate ?n 0) ! k =
        (if 0 \<le> k \<and> k - (k - 0) mod 4 < ?n
         then ?F (k - (k - 0) mod 4) k (replicate ?n 0 ! k) else replicate ?n 0 ! k)"
      by (rule for_step4_nth [where F = ?F, OF _ body k']) simp
    also have "\<dots> = ToUint8Clamp (rd ?d k)"
      using blk cond [of "k - k mod 4"] by simp
    also have "\<dots> = ?d ! k" using k len by (simp add: ToUint8Clamp_rd)
    finally show "for_step4 0 ?n ?body (replicate ?n 0) ! k = ?d ! k" .
  qed
  then show ?thesis
    by (simp add: exportLayerToImageData_def new_ImageData_def Let_def len)
qed

theorem exportLayerToImageData_opaque_full_witness:
  "valid_raster \<lparr>width = 2, height = 1, data = [255, 0, 0, 255, 0, 9, 255, 255]\<rparr>
   \<and> exportLayerToImageData \<lparr>width = 2, height = 1, data = [255, 0, 0, 255, 0, 9, 255, 255]\<rparr>
        \<lparr>layer_id = ''a'', layer_color = \<lparr>red = 255, green = 0, blue = 0\<rparr>, name = ''#ff0000'',
         visible = True, tolerance = Some 100, layer_mask = Some (createFullMask 2 1),
         paintData = None\<rparr>
       = \<lparr>width = 2, height = 1, data = [255, 0, 0, 255, 0, 9, 255, 255]\<rparr>"
proof -
  let ?src = "\<lparr>width = 2, height = 1, data = [255, 0, 0, 255, 0, 9, 255, 255 :: byte]\<rparr>"
  have v: "valid_raster ?src" by (simp add: valid_raster_def)
  have a: "\<forall>p < width ?src * height ?src. data ?src ! (4 * p + 3) = 255"
    by (simp add: less_Suc_eq numeral_2_eq_2)
  show ?thesis
    using v exportLayerToImageData_opaque_full [OF v a, of
        "\<lparr>layer_id = ''a'', layer_color = \<lparr>red = 255, green = 0, blue = 0\<rparr>, name = ''#ff0000'',
         visible = True, tolerance = Some 100, layer_mask = Some (createFullMask 2 1),
         paintData = None\<rparr>"]
    by (simp add: valid_color_def)
qed

text \<open>
  Claim C6. The reconstruction of a raster with an empty set of selected ids is a raster
  of the same width and height in which every byte is zero, for every list of layers.
\<close>

theorem exportReconstructedImageData_empty_selection:
  assumes "valid_raster img"
  shows "width (exportReconstructedImageData img ls []) = width img
       \<and> height (exportReconstructedImageData img ls []) = height img
       \<and> length (data (exportReconstructedImageData img ls [])) = width img * height img * 4
       \<and> (\<forall>k < width img * height img * 4. data (exportReconstructedImageData img ls []) ! k = 0)"
  by (simp add: exportReconstructedImageData_def new_ImageData_def)

theorem exportReconstructedImageData_empty_selection_witness:
  "valid_raster \<lparr>width = 2, height = 1, data = [255, 0, 0, 255, 0, 9, 255, 255]\<rparr>
   \<and> (7::nat) < 2 * 1 * 4
   \<and> data (exportReconstructedImageData
        \<lparr>width = 2, height = 1, data = [255, 0, 0, 255, 0, 9, 255, 255]\<rparr>
        [\<lparr>layer_id = ''a'', layer_color = \<lparr>red = 255, green = 0, blue = 0\<rparr>, name = ''#ff0000'',
          visible = True, tolerance = Some 100, layer_mask = Some (createFullMask 2 1),
          paintData = None\<rparr>] []) ! 7 = 0"
proof -
  let ?img = "\<lparr>width = 2, height = 1, data = [255, 0, 0, 255, 0, 9, 255, 255 :: byte]\<rparr>"
  have v: "valid_raster ?img" by (simp add: valid_raster_def)
  show ?thesis
    using v exportReconstructedImageData_empty_selection [OF v, of
        "[\<lparr>layer_id = ''a'', layer_color = \<lparr>red = 255, green = 0, blue = 0\<rparr>, name = ''#ff0000'',
          visible = True, tolerance = Some 100, layer_mask = Some (createFullMask 2 1),
          paintData = None\<rparr>]"]
    by simp
qed

section \<open>Properties of the reordering of layers\<close>

lemma findIndex_first:
  "i < length xs \<Longrightarrow> p (xs ! i) \<Longrightarrow> \<forall>j < i. \<not> p (xs ! j) \<Longrightarrow> findIndex p xs = Some i"
proof (induction xs arbitrary: i)
  case Nil
  then show ?case by simp
next
  case (Cons x xs)
  show ?case
  proof (cases i)
    case 0
    with Cons.prems show ?thesis by simp
  next
    case (Suc i')
    with Cons.prems have "\<not> p x" by auto
    moreover have "findIndex p xs = Some i'"
      using Cons.prems Suc by (intro Cons.IH) auto
    ultimately show ?thesis using Suc by simp
  qed
qed

lemma remove_insert:
  assumes "i < length xs" "t < length xs"
  defines "next1 \<equiv> take i xs @ drop (Suc i) xs"
  defines "res \<equiv> take t next1 @ [xs ! i] @ drop t next1"
  shows "length res = length xs" "res ! t = xs ! i" "take t res @ drop (Suc t) res = next1"
proof -
  have n1: "length next1 = length xs - 1" using assms(1) by (simp add: next1_def)
  then have t: "t \<le> length next1" using assms(2) by simp
  then have lt: "length (take t next1) = t" by simp
  show "length res = length xs" using assms(1) n1 t by (simp add: res_def)
  show "res ! t = xs ! i" using lt by (simp add: res_def nth_append)
  show "take t res @ drop (Suc t) res = next1" using lt t by (simp add: res_def)
qed

text \<open>
  Claim C8. When the layer with the given id is in the list, at position \<open>i\<close> (the first
  one with that id), \<open>handleMoveLayerToIndex\<close> returns a list of the same length in which
  that layer is at the index \<open>toIndex\<close> clamped into the range from 0 to \<open>length - 1\<close> and
  decremented by one when it is beyond \<open>i\<close>; the other layers keep their relative order:
  without the moved layer, the list before and the list after are the same.
\<close>

theorem handleMoveLayerToIndex_spec:
  assumes "i < length prev" "layer_id (prev ! i) = layerId"
    and "\<forall>j < i. layer_id (prev ! j) \<noteq> layerId"
  shows "length (handleMoveLayerToIndex layerId toIndex prev) = length prev
       \<and> spec_move_target (length prev) i toIndex < length prev
       \<and> handleMoveLayerToIndex layerId toIndex prev ! spec_move_target (length prev) i toIndex
           = prev ! i
       \<and> take (spec_move_target (length prev) i toIndex) (handleMoveLayerToIndex layerId toIndex prev)
           @ drop (Suc (spec_move_target (length prev) i toIndex))
               (handleMoveLayerToIndex layerId toIndex prev)
           = take i prev @ drop (Suc i) prev"
proof -
  let ?t = "spec_move_target (length prev) i toIndex"
  define c where "c = max 0 (min (int (length prev) - 1) toIndex)"
  define target where "target = (if int i < c then c - 1 else c)"
  have fi: "findIndex (\<lambda>l. layer_id l = layerId) prev = Some i"
    using assms by (intro findIndex_first) auto
  have n: "1 \<le> int (length prev)" using assms(1) by simp
  have c0: "0 \<le> c" "c \<le> int (length prev) - 1"
    using n unfolding c_def by linarith+
  have "spec_clamped_index (length prev) toIndex = c"
    using n unfolding spec_clamped_index_def c_def max_def min_def by auto
  moreover have "nat c - 1 = nat (c - 1)" by (cases "1 \<le> c") (simp_all add: nat_diff_distrib)
  ultimately have t: "?t = nat target"
    unfolding spec_move_target_def target_def by (simp split: if_splits)
  have target: "0 \<le> target" "target < int (length prev)"
    using c0 by (simp_all add: target_def)
  then have tlt: "?t < length prev" by (simp add: t)
  have code: "handleMoveLayerToIndex layerId toIndex prev =
      (if int i = target then prev
       else take (nat target) (take i prev @ drop (Suc i) prev) @ [prev ! i]
              @ drop (nat target) (take i prev @ drop (Suc i) prev))"
    unfolding handleMoveLayerToIndex_def fi option.case Let_def
      c_def [symmetric] target_def [symmetric]
    by (rule refl)
  show ?thesis
  proof (cases "int i = target")
    case True
    then have "?t = i" by (simp add: t)
    moreover have "handleMoveLayerToIndex layerId toIndex prev = prev"
      using True by (simp only: code simp_thms if_True)
    ultimately show ?thesis using assms(1) by (simp only: simp_thms)
  next
    case False
    then have res: "handleMoveLayerToIndex layerId toIndex prev =
        take ?t (take i prev @ drop (Suc i) prev) @ [prev ! i]
          @ drop ?t (take i prev @ drop (Suc i) prev)"
      by (simp only: code simp_thms if_False t)
    note ri = remove_insert [OF assms(1) tlt]
    have "length (handleMoveLayerToIndex layerId toIndex prev) = length prev"
      by (simp only: res ri(1))
    moreover have "handleMoveLayerToIndex layerId toIndex prev ! ?t = prev ! i"
      by (simp only: res ri(2))
    moreover have "take ?t (handleMoveLayerToIndex layerId toIndex prev)
        @ drop (Suc ?t) (handleMoveLayerToIndex layerId toIndex prev)
        = take i prev @ drop (Suc i) prev"
      by (simp only: res ri(3))
    ultimately show ?thesis using tlt by (intro conjI)
  qed
qed

theorem handleMoveLayerToIndex_spec_witness:
  "(0::nat) < length
        [\<lparr>layer_id = ''a'', layer_color = \<lparr>red = 1, green = 2, blue = 3\<rparr>, name = ''x'',
          visible = True, tolerance = None, layer_mask = None, paintData = None\<rparr>,
         \<lparr>layer_id = ''b'', layer_color = \<lparr>red = 1, green = 2, blue = 3\<rparr>, name = ''x'',
          visible = True, tolerance = None, layer_mask = None, paintData = None\<rparr>,
         \<lparr>layer_id = ''c'', layer_color = \<lparr>red = 1, green = 2, blue = 3\<rparr>, name = ''x'',
          visible = True, tolerance = None, layer_mask = None, paintData = None\<rparr>]
   \<and> spec_move_target 3 0 2 = 1
   \<and> layer_id (handleMoveLayerToIndex ''a'' 2
        [\<lparr>layer_id = ''a'', layer_color = \<lparr>red = 1, green = 2, blue = 3\<rparr>, name = ''x'',
          visible = True, tolerance = None, layer_mask = None, paintData = None\<rparr>,
         \<lparr>layer_id = ''b'', layer_color = \<lparr>red = 1, green = 2, blue = 3\<rparr>, name = ''x'',
          visible = True, tolerance = None, layer_mask = None, paintData = None\<rparr>,
         \<lparr>layer_id = ''c'', layer_color = \<lparr>red = 1, green = 2, blue = 3\<rparr>, name = ''x'',
          visible = True, tolerance = None, layer_mask = None, paintData = None\<rparr>] ! 1) = ''a''"
proof -
  let ?a = "\<lparr>layer_id = ''a'', layer_color = \<lparr>red = 1, green = 2, blue = 3\<rparr>, name = ''x'',
          visible = True, tolerance = None, layer_mask = None, paintData = None\<rparr>"
  let ?b = "\<lparr>layer_id = ''b'', layer_color = \<lparr>red = 1, green = 2, blue = 3\<rparr>, name = ''x'',
          visible = True, tolerance = None, layer_mask = None, paintData = None\<rparr>"
  let ?c = "\<lparr>layer_id = ''c'', layer_color = \<lparr>red = 1, green = 2, blue = 3\<rparr>, name = ''x'',
          visible = True, tolerance = None, layer_mask = None, paintData = None\<rparr>"
  let ?res = "handleMoveLayerToIndex ''a'' 2 [?a, ?b, ?c]"
  have h1: "0 < length [?a, ?b, ?c]" by simp
  have h2: "layer_id ([?a, ?b, ?c] ! 0) = ''a''" by simp
  have h3: "\<forall>j < 0. layer_id ([?a, ?b, ?c] ! j) \<noteq> ''a''" by simp
  have t: "spec_move_target 3 0 2 = 1"
    by (simp add: spec_move_target_def spec_clamped_index_def)
  have l: "length [?a, ?b, ?c] = 3" by simp
  from handleMoveLayerToIndex_spec [OF h1 h2 h3, of 2]
  have "?res ! spec_move_target (length [?a, ?b, ?c]) 0 2 = [?a, ?b, ?c] ! 0" by blast
  then have "?res ! 1 = ?a" by (simp only: l t nth_Cons_0)
  then have "layer_id (?res ! 1) = ''a''" by simp
  with h1 t show ?thesis by blast
qed

section \<open>Dominant colours of a red raster\<close>

text \<open>
  Claim C3. For the 4 by 4 raster in which every pixel is (255, 0, 0, 255),
  \<open>getDominantColors\<close> with \<open>maxColors = 5\<close> and \<open>sampleStep = 1\<close> (the 12 quantization
  levels are fixed in the function) returns exactly one colour, (244, 11, 11): the channels
  255 and 0 are quantized to the levels 11 and 0, whose bucket centres
  \<open>round ((level + 0.5) * 255 / 12)\<close> are 244 and 11.
\<close>

theorem getDominantColors_red_4x4:
  "getDominantColors \<lparr>width = 4, height = 4, data = concat (replicate 16 [255, 0, 0, 255])\<rparr> 5 1
     = Some [(Some 244, Some 11, Some 11)]
   \<and> quantize (Some 255) 12 = Some 11 \<and> quantize (Some 0) 12 = Some 0
   \<and> bucket_centre 12 (Some 11) = Some 244 \<and> bucket_centre 12 (Some 0) = Some 11"
  by code_simp

section \<open>Properties of the loops over rows and columns\<close>

text \<open>
  The loops of the transforms write each cell of the output at most once: every step
  rewrites the cells it owns, from values that do not depend on the output so far, and
  no two steps own the same cell.
\<close>

lemma fold_scatter_length:
  "(\<And>p s. length (step p s) = length (s :: 'a list)) \<Longrightarrow> length (fold step ps s) = length s"
  by (induction ps arbitrary: s) simp_all

lemma fold_scatter_other:
  assumes len: "\<And>p s. length (step p s) = length (s :: 'a list)"
    and nth: "\<And>p s k. k < length s \<Longrightarrow> step p s ! k = (if own p k then v p k else s ! k)"
  shows "k < length s \<Longrightarrow> \<forall>p \<in> set ps. \<not> own p k \<Longrightarrow> fold step ps s ! k = s ! k"
proof (induction ps arbitrary: s)
  case Nil
  then show ?case by simp
next
  case (Cons q ps)
  have "fold step ps (step q s) ! k = step q s ! k"
    using Cons.prems by (intro Cons.IH) (simp_all add: len)
  also have "\<dots> = s ! k" using Cons.prems by (simp add: nth)
  finally show ?case by simp
qed

lemma fold_scatter_nth:
  assumes len: "\<And>p s. length (step p s) = length (s :: 'a list)"
    and nth: "\<And>p s k. k < length s \<Longrightarrow> step p s ! k = (if own p k then v p k else s ! k)"
  shows "k < length s \<Longrightarrow> p \<in> set ps \<Longrightarrow> own p k \<Longrightarrow>
         (\<And>q. q \<in> set ps \<Longrightarrow> own q k \<Longrightarrow> q = p) \<Longrightarrow> fold step ps s ! k = v p k"
proof (induction ps arbitrary: s)
  case Nil
  then show ?case by simp
next
  case (Cons q ps)
  have k: "k < length (step q s)" using Cons.prems(1) by (simp add: len)
  show ?case
  proof (cases "p \<in> set ps")
    case True
    have "fold step ps (step q s) ! k = v p k"
      using k True Cons.prems(3,4) by (intro Cons.IH) simp_all
    then show ?thesis by simp
  next
    case False
    with Cons.prems(2) have qp: "q = p" by simp
    have none: "\<forall>r \<in> set ps. \<not> own r k"
    proof
      fix r assume r: "r \<in> set ps"
      show "\<not> own r k"
      proof
        assume "own r k"
        with r have "r = p" using Cons.prems(4) by simp
        with r False show False by simp
      qed
    qed
    have "fold step ps (step q s) ! k = step q s ! k"
      by (rule fold_scatter_other [where own = own and v = v]) (simp_all add: len nth Cons.prems(1) none)
    also have "\<dots> = v p k" using Cons.prems(1,3) by (simp add: nth qp)
    finally show ?thesis by simp
  qed
qed

lemma nested_fold_product:
  "fold (\<lambda>y. fold (\<lambda>x. step (y, x)) xs) ys s = fold step (List.product ys xs) s"
proof (induction ys arbitrary: s)
  case Nil
  then show ?case by simp
next
  case (Cons y ys)
  have "fold step (map (Pair y) xs) s = fold (\<lambda>x. step (y, x)) xs s"
    by (simp add: fold_map comp_def)
  then show ?case by (simp add: Cons.IH)
qed

lemma nested_scatter_length:
  assumes "\<And>y x s. length (step y x s) = length (s :: 'a list)"
  shows "length (fold (\<lambda>y. fold (\<lambda>x. step y x) xs) ys s) = length s"
proof -
  have "length (fold (\<lambda>y. fold (\<lambda>x. (\<lambda>(y, x). step y x) (y, x)) xs) ys s) = length s"
    unfolding nested_fold_product by (rule fold_scatter_length) (simp add: assms split_def)
  then show ?thesis by simp
qed

lemma nested_scatter_nth:
  assumes len: "\<And>y x s. length (step y x s) = length (s :: 'a list)"
    and nth: "\<And>y x s k. k < length s \<Longrightarrow>
                step y x s ! k = (if own y x k then v y x k else s ! k)"
    and k: "k < length s" and yx: "y < h" "x < w" "own y x k"
    and disj: "\<And>y' x'. y' < h \<Longrightarrow> x' < w \<Longrightarrow> own y' x' k \<Longrightarrow> y' = y \<and> x' = x"
  shows "fold (\<lambda>y. fold (\<lambda>x. step y x) [0..<w]) [0..<h] s ! k = v y x k"
proof -
  let ?step = "\<lambda>(y, x). step y x"
  have "fold ?step (List.product [0..<h] [0..<w]) s ! k = (\<lambda>(y, x). v y x) (y, x) k"
  proof (rule fold_scatter_nth [where own = "\<lambda>(y, x). own y x"])
    show "length (?step p s) = length s" for p s by (simp add: len split_def)
    show "?step p s ! k = (if (\<lambda>(y, x). own y x) p k then (\<lambda>(y, x). v y x) p k else s ! k)"
      if "k < length s" for p s k
      using that by (simp add: nth split_def)
    show "k < length s" by (rule k)
    show "(y, x) \<in> set (List.product [0..<h] [0..<w])" using yx by simp
    show "(\<lambda>(y, x). own y x) (y, x) k" using yx by simp
    show "q = (y, x)" if "q \<in> set (List.product [0..<h] [0..<w])" "(\<lambda>(y, x). own y x) q k" for q
      using that disj [of "fst q" "snd q"] by (auto simp: split_def)
  qed
  moreover have "fold (\<lambda>y. fold (\<lambda>x. ?step (y, x)) [0..<w]) [0..<h] s
      = fold ?step (List.product [0..<h] [0..<w]) s"
    by (rule nested_fold_product)
  ultimately show ?thesis by simp
qed

text \<open>Row-major indices.\<close>

lemma cell_less: "a < H \<Longrightarrow> b < W \<Longrightarrow> a * W + b < H * (W::nat)"
proof -
  assume a: "a < H" and b: "b < W"
  have "a * W + b < a * W + W" using b by simp
  also have "\<dots> = Suc a * W" by simp
  also have "\<dots> \<le> H * W" using a by (intro mult_le_mono1) simp
  finally show ?thesis .
qed

lemma cell_inj:
  "b < W \<Longrightarrow> b' < W \<Longrightarrow> a * W + b = a' * W + b' \<Longrightarrow> a = a' \<and> b = (b'::nat)"
proof -
  assume b: "b < W" and b': "b' < W" and eq: "a * W + b = a' * W + b'"
  have "(a * W + b) div W = a" "(a * W + b) mod W = b" using b by simp_all
  moreover have "(a' * W + b') div W = a'" "(a' * W + b') mod W = b'" using b' by simp_all
  ultimately show ?thesis using eq by metis
qed

lemma cell_split: "k < H * W \<Longrightarrow> k div W < H \<and> k mod W < W \<and> (k div W) * W + k mod W = (k::nat)"
proof -
  assume k: "k < H * W"
  then have W: "0 < W" by (cases W) simp_all
  have "k div W < H" using k W by (simp add: less_mult_imp_div_less)
  then show ?thesis using W by simp
qed

lemma mirror: "a < (n::nat) \<Longrightarrow> n - 1 - a < n \<and> n - 1 - (n - 1 - a) = a"
  by auto

lemma px_own: "(k div 4 = j) = (j * 4 \<le> k \<and> k < j * 4 + (4::nat))"
  by auto

lemma copy_px_nth4:
  "k < length out \<Longrightarrow>
   copy_px src (i * 4) out (j * 4) ! k =
     (if k div 4 = j then ToUint8Clamp (rd src (i * 4 + k mod 4)) else out ! k)"
proof -
  assume k: "k < length out"
  have "k - j * 4 = k mod 4" if "k div 4 = j"
    using that by (metis minus_div_mult_eq_mod)
  then show ?thesis using k by (auto simp: copy_px_nth px_own)
qed

lemma mask_scatter_nth:
  assumes bound: "dst y x < length out"
    and inj: "\<And>y' x'. y' < h \<Longrightarrow> x' < w \<Longrightarrow> dst y' x' = dst y x \<Longrightarrow> y' = y \<and> x' = x"
    and yx: "y < h" "x < w"
  shows "fold (\<lambda>y. fold (\<lambda>x out. out[dst y x := val y x]) [0..<w]) [0..<h] out ! dst y x
           = (val y x :: 'a)"
proof -
  let ?step = "\<lambda>y x (out :: 'a list). out[dst y x := val y x]"
  have "fold (\<lambda>y. fold (\<lambda>x. ?step y x) [0..<w]) [0..<h] out ! dst y x
      = (\<lambda>y x k. val y x) y x (dst y x)"
  proof (rule nested_scatter_nth [where own = "\<lambda>y x k. k = dst y x" and v = "\<lambda>y x k. val y x"])
    show "length (?step y x s) = length s" for y x s by simp
    show "?step y x s ! k = (if k = dst y x then val y x else s ! k)" if "k < length s" for y x s k
      using that by (simp add: nth_list_update)
    show "dst y x < length out" by (rule bound)
    show "y < h" "x < w" by (rule yx)+
    show "dst y x = dst y x" by (rule refl)
    show "y' = y \<and> x' = x" if "y' < h" "x' < w" "dst y x = dst y' x'" for y' x'
      using that inj [of y' x'] by simp
  qed
  then show ?thesis by simp
qed

lemma px_scatter_nth:
  assumes bound: "dst y x * 4 + c < length out" and c: "c < 4"
    and inj: "\<And>y' x'. y' < h \<Longrightarrow> x' < w \<Longrightarrow> dst y' x' = dst y x \<Longrightarrow> y' = y \<and> x' = x"
    and yx: "y < h" "x < w"
  shows "fold (\<lambda>y. fold (\<lambda>x out. copy_px src (sp y x * 4) out (dst y x * 4)) [0..<w]) [0..<h] out
           ! (dst y x * 4 + c)
         = ToUint8Clamp (rd src (sp y x * 4 + c))"
proof -
  let ?step = "\<lambda>y x out. copy_px src (sp y x * 4) out (dst y x * 4)"
  let ?k = "dst y x * 4 + c"
  have kd: "?k div 4 = dst y x" and km: "?k mod 4 = c" using c by simp_all
  have "fold (\<lambda>y. fold (\<lambda>x. ?step y x) [0..<w]) [0..<h] out ! ?k
      = (\<lambda>y x k. ToUint8Clamp (rd src (sp y x * 4 + k mod 4))) y x ?k"
  proof (rule nested_scatter_nth [where own = "\<lambda>y x k. k div 4 = dst y x"
        and v = "\<lambda>y x k. ToUint8Clamp (rd src (sp y x * 4 + k mod 4))"])
    show "length (?step y x s) = length s" for y x s by simp
    show "?step y x s ! k =
        (if k div 4 = dst y x then ToUint8Clamp (rd src (sp y x * 4 + k mod 4)) else s ! k)"
      if "k < length s" for y x s k
      using that by (rule copy_px_nth4)
    show "?k < length out" by (rule bound)
    show "y < h" "x < w" by (rule yx)+
    show "?k div 4 = dst y x" by (rule kd)
    show "y' = y \<and> x' = x" if "y' < h" "x' < w" "?k div 4 = dst y' x'" for y' x'
      using that inj [of y' x'] by (simp only: kd)
  qed
  then show ?thesis by (simp only: km)
qed

section \<open>Properties of the transforms of a mask\<close>

lemma length_rotateMask:
  "length (rotateMask m w h degrees)
     = (if degrees = 90 \<or> degrees = - 90 then h * w else length m)"
  unfolding rotateMask_def Let_def
  by (subst nested_scatter_length) simp_all

lemma length_flipMask: "length (flipMask m w h horizontal vertical) = length m"
  unfolding flipMask_def Let_def
  by (subst nested_scatter_length) simp_all

lemma length_cropMask: "length (cropMask m srcWidth rect) = rect_width rect * rect_height rect"
  unfolding cropMask_def Let_def
  by (subst nested_scatter_length) simp_all

lemma rotateMask_90_nth:
  assumes "length m = w * h" "y < h" "x < w"
  shows "rotateMask m w h 90 ! (x * h + (h - 1 - y)) = m ! (y * w + x)"
proof -
  let ?dst = "\<lambda>y x. x * h + (h - 1 - y)"
  let ?val = "\<lambda>y x. ToUint8 (rd m (y * w + x))"
  have "rotateMask m w h 90 =
      fold (\<lambda>y. fold (\<lambda>x out. out[?dst y x := ?val y x]) [0..<w]) [0..<h] (replicate (h * w) 0)"
    by (simp add: rotateMask_def)
  moreover have "fold (\<lambda>y. fold (\<lambda>x out. out[?dst y x := ?val y x]) [0..<w]) [0..<h]
      (replicate (h * w) 0) ! ?dst y x = ?val y x"
  proof (rule mask_scatter_nth)
    show "?dst y x < length (replicate (h * w) (0::byte))"
      using cell_less [of x w "h - 1 - y" h] assms by (simp add: mult.commute)
    show "y' = y \<and> x' = x" if "y' < h" "x' < w" "?dst y' x' = ?dst y x" for y' x'
      using cell_inj [of "h - 1 - y'" h "h - 1 - y" x' x] that assms by auto
  qed (rule assms)+
  moreover have "?val y x = m ! (y * w + x)"
    using cell_less [of y h x w] assms by (simp add: ToUint8_rd mult.commute)
  ultimately show ?thesis by simp
qed

lemma rotateMask_m90_nth:
  assumes "length m = w * h" "y < h" "x < w"
  shows "rotateMask m w h (- 90) ! ((w - 1 - x) * h + y) = m ! (y * w + x)"
proof -
  let ?dst = "\<lambda>y x. (w - 1 - x) * h + y"
  let ?val = "\<lambda>y x. ToUint8 (rd m (y * w + x))"
  have "rotateMask m w h (- 90) =
      fold (\<lambda>y. fold (\<lambda>x out. out[?dst y x := ?val y x]) [0..<w]) [0..<h] (replicate (h * w) 0)"
    by (simp add: rotateMask_def)
  moreover have "fold (\<lambda>y. fold (\<lambda>x out. out[?dst y x := ?val y x]) [0..<w]) [0..<h]
      (replicate (h * w) 0) ! ?dst y x = ?val y x"
  proof (rule mask_scatter_nth)
    show "?dst y x < length (replicate (h * w) (0::byte))"
      using cell_less [of "w - 1 - x" w y h] assms by (simp add: mult.commute)
    show "y' = y \<and> x' = x" if "y' < h" "x' < w" "?dst y' x' = ?dst y x" for y' x'
      using cell_inj [of y' h y "w - 1 - x'" "w - 1 - x"] that assms by auto
  qed (rule assms)+
  moreover have "?val y x = m ! (y * w + x)"
    using cell_less [of y h x w] assms by (simp add: ToUint8_rd mult.commute)
  ultimately show ?thesis by simp
qed

lemma rotateMask_180_nth:
  assumes "length m = w * h" "y < h" "x < w"
  shows "rotateMask m w h 180 ! ((h - 1 - y) * w + (w - 1 - x)) = m ! (y * w + x)"
proof -
  let ?dst = "\<lambda>y x. (h - 1 - y) * w + (w - 1 - x)"
  let ?val = "\<lambda>y x. ToUint8 (rd m (y * w + x))"
  have "rotateMask m w h 180 =
      fold (\<lambda>y. fold (\<lambda>x out. out[?dst y x := ?val y x]) [0..<w]) [0..<h]
        (replicate (length m) 0)"
    by (simp add: rotateMask_def)
  moreover have "fold (\<lambda>y. fold (\<lambda>x out. out[?dst y x := ?val y x]) [0..<w]) [0..<h]
      (replicate (length m) 0) ! ?dst y x = ?val y x"
  proof (rule mask_scatter_nth)
    show "?dst y x < length (replicate (length m) (0::byte))"
      using cell_less [of "h - 1 - y" h "w - 1 - x" w] assms by (simp add: mult.commute)
    show "y' = y \<and> x' = x" if "y' < h" "x' < w" "?dst y' x' = ?dst y x" for y' x'
      using cell_inj [of "w - 1 - x'" w "w - 1 - x" "h - 1 - y'" "h - 1 - y"] that assms by auto
  qed (rule assms)+
  moreover have "?val y x = m ! (y * w + x)"
    using cell_less [of y h x w] assms by (simp add: ToUint8_rd mult.commute)
  ultimately show ?thesis by simp
qed

lemma rotateMask_90_m90:
  assumes "length m = w * h"
  shows "rotateMask (rotateMask m w h 90) h w (- 90) = m"
proof (rule nth_equalityI)
  show "length (rotateMask (rotateMask m w h 90) h w (- 90)) = length m"
    by (simp add: length_rotateMask assms)
next
  fix k assume "k < length (rotateMask (rotateMask m w h 90) h w (- 90))"
  then have "k < h * w" by (simp add: length_rotateMask mult.commute)
  from cell_split [OF this] obtain y x where yx: "y < h" "x < w" and k: "k = y * w + x"
    by metis
  let ?mid = "rotateMask m w h 90"
  have mid: "length ?mid = h * w" by (simp add: length_rotateMask)
  have "rotateMask ?mid h w (- 90) ! ((h - 1 - (h - 1 - y)) * w + x) = ?mid ! (x * h + (h - 1 - y))"
    using yx by (intro rotateMask_m90_nth mid) simp_all
  also have "\<dots> = m ! (y * w + x)" by (rule rotateMask_90_nth [OF assms yx])
  finally show "rotateMask ?mid h w (- 90) ! k = m ! k" using yx by (simp add: k)
qed

lemma rotateMask_180_180:
  assumes "length m = w * h"
  shows "rotateMask (rotateMask m w h 180) w h 180 = m"
proof (rule nth_equalityI)
  show "length (rotateMask (rotateMask m w h 180) w h 180) = length m"
    by (simp add: length_rotateMask)
next
  fix k assume "k < length (rotateMask (rotateMask m w h 180) w h 180)"
  then have "k < h * w" by (simp add: length_rotateMask assms mult.commute)
  from cell_split [OF this] obtain y x where yx: "y < h" "x < w" and k: "k = y * w + x"
    by metis
  let ?mid = "rotateMask m w h 180"
  have mid: "length ?mid = w * h" by (simp add: length_rotateMask assms)
  have "rotateMask ?mid w h 180 ! ((h - 1 - (h - 1 - y)) * w + (w - 1 - (w - 1 - x)))
      = ?mid ! ((h - 1 - y) * w + (w - 1 - x))"
    using yx by (intro rotateMask_180_nth mid) simp_all
  also have "\<dots> = m ! (y * w + x)" by (rule rotateMask_180_nth [OF assms yx])
  finally show "rotateMask ?mid w h 180 ! k = m ! k" using yx by (simp add: k)
qed

lemma cropMask_full_nth:
  assumes "rect_x r + rect_width r \<le> w" "rect_y r + rect_height r \<le> h"
    and "k < rect_width r * rect_height r"
  shows "cropMask (createFullMask w h) w r ! k = 1"
proof -
  let ?cw = "rect_width r" and ?ch = "rect_height r" and ?m = "createFullMask w h"
  let ?dst = "\<lambda>dy dx. dy * ?cw + dx"
  let ?val = "\<lambda>dy dx. ToUint8 (rd ?m ((rect_y r + dy) * w + (rect_x r + dx)))"
  from assms(3) have "k < ?ch * ?cw" by (simp add: mult.commute)
  from cell_split [OF this] obtain dy dx where d: "dy < ?ch" "dx < ?cw" and k: "k = ?dst dy dx"
    by metis
  have "cropMask ?m w r =
      fold (\<lambda>dy. fold (\<lambda>dx out. out[?dst dy dx := ?val dy dx]) [0..<?cw]) [0..<?ch]
        (replicate (?cw * ?ch) 0)"
    by (simp add: cropMask_def Let_def)
  moreover have "fold (\<lambda>dy. fold (\<lambda>dx out. out[?dst dy dx := ?val dy dx]) [0..<?cw]) [0..<?ch]
      (replicate (?cw * ?ch) 0) ! ?dst dy dx = ?val dy dx"
  proof (rule mask_scatter_nth)
    show "?dst dy dx < length (replicate (?cw * ?ch) (0::byte))"
      using assms(3) by (simp add: k)
    show "y' = dy \<and> x' = dx" if "y' < ?ch" "x' < ?cw" "?dst y' x' = ?dst dy dx" for y' x'
      using cell_inj [of x' ?cw dx y' dy] that d by simp
  qed (rule d)+
  moreover have "?val dy dx = 1"
  proof -
    have "rect_y r + dy < h" "rect_x r + dx < w" using assms(1,2) d by simp_all
    then have "(rect_y r + dy) * w + (rect_x r + dx) < h * w" by (rule cell_less)
    then show ?thesis by (simp add: ToUint8_rd createFullMask_def mult.commute)
  qed
  ultimately show ?thesis by (simp add: k)
qed

section \<open>Properties of the rotation of a raster\<close>

lemma length_rotateImageData [simp]:
  "length (data (rotateImageData img degrees)) = length (data img)"
  unfolding rotateImageData_def Let_def
  by (simp add: nested_scatter_length)

lemma dims_rotateImageData:
  "width (rotateImageData img degrees)
     = (if degrees = 90 \<or> degrees = - 90 then height img else width img)"
  "height (rotateImageData img degrees)
     = (if degrees = 90 \<or> degrees = - 90 then width img else height img)"
  by (simp_all add: rotateImageData_def Let_def)

lemma px_less: "p < n \<Longrightarrow> c < 4 \<Longrightarrow> p * 4 + c < n * (4::nat)"
  by simp

lemma rotateImageData_90_nth:
  assumes "length (data img) = width img * height img * 4"
    and "y < height img" "x < width img" "c < 4"
  shows "data (rotateImageData img 90) ! ((x * height img + (height img - 1 - y)) * 4 + c)
           = data img ! ((y * width img + x) * 4 + c)"
proof -
  let ?w = "width img" and ?h = "height img" and ?d = "data img"
  let ?dst = "\<lambda>y x. x * ?h + (?h - 1 - y)"
  let ?sp = "\<lambda>y x. y * ?w + x"
  have "data (rotateImageData img 90) =
      fold (\<lambda>y. fold (\<lambda>x out. copy_px ?d (?sp y x * 4) out (?dst y x * 4)) [0..<?w]) [0..<?h]
        (replicate (length ?d) 0)"
    by (simp add: rotateImageData_def Let_def)
  moreover have "fold (\<lambda>y. fold (\<lambda>x out. copy_px ?d (?sp y x * 4) out (?dst y x * 4)) [0..<?w])
      [0..<?h] (replicate (length ?d) 0) ! (?dst y x * 4 + c)
      = ToUint8Clamp (rd ?d (?sp y x * 4 + c))"
  proof (rule px_scatter_nth)
    have "?dst y x < ?w * ?h" using cell_less [of x ?w "?h - 1 - y" ?h] assms by simp
    then show "?dst y x * 4 + c < length (replicate (length ?d) (0::byte))"
      using assms by (simp add: px_less)
    show "y' = y \<and> x' = x" if "y' < ?h" "x' < ?w" "?dst y' x' = ?dst y x" for y' x'
      using cell_inj [of "?h - 1 - y'" ?h "?h - 1 - y" x' x] that assms by auto
  qed (rule assms)+
  moreover have "ToUint8Clamp (rd ?d (?sp y x * 4 + c)) = ?d ! (?sp y x * 4 + c)"
  proof -
    have "?sp y x < ?h * ?w" using assms by (intro cell_less)
    then have "?sp y x * 4 + c < length ?d" using assms by (simp add: px_less mult.commute)
    then show ?thesis by (simp add: ToUint8Clamp_rd)
  qed
  ultimately show ?thesis by simp
qed

lemma rotateImageData_m90_nth:
  assumes "length (data img) = width img * height img * 4"
    and "y < height img" "x < width img" "c < 4"
  shows "data (rotateImageData img (- 90)) ! (((width img - 1 - x) * height img + y) * 4 + c)
           = data img ! ((y * width img + x) * 4 + c)"
proof -
  let ?w = "width img" and ?h = "height img" and ?d = "data img"
  let ?dst = "\<lambda>y x. (?w - 1 - x) * ?h + y"
  let ?sp = "\<lambda>y x. y * ?w + x"
  have "data (rotateImageData img (- 90)) =
      fold (\<lambda>y. fold (\<lambda>x out. copy_px ?d (?sp y x * 4) out (?dst y x * 4)) [0..<?w]) [0..<?h]
        (replicate (length ?d) 0)"
    by (simp add: rotateImageData_def Let_def)
  moreover have "fold (\<lambda>y. fold (\<lambda>x out. copy_px ?d (?sp y x * 4) out (?dst y x * 4)) [0..<?w])
      [0..<?h] (replicate (length ?d) 0) ! (?dst y x * 4 + c)
      = ToUint8Clamp (rd ?d (?sp y x * 4 + c))"
  proof (rule px_scatter_nth)
    have "?dst y x < ?w * ?h" using cell_less [of "?w - 1 - x" ?w y ?h] assms by simp
    then show "?dst y x * 4 + c < length (replicate (length ?d) (0::byte))"
      using assms by (simp add: px_less)
    show "y' = y \<and> x' = x" if "y' < ?h" "x' < ?w" "?dst y' x' = ?dst y x" for y' x'
      using cell_inj [of y' ?h y "?w - 1 - x'" "?w - 1 - x"] that assms by auto
  qed (rule assms)+
  moreover have "ToUint8Clamp (rd ?d (?sp y x * 4 + c)) = ?d ! (?sp y x * 4 + c)"
  proof -
    have "?sp y x < ?h * ?w" using assms by (intro cell_less)
    then have "?sp y x * 4 + c < length ?d" using assms by (simp add: px_less mult.commute)
    then show ?thesis by (simp add: ToUint8Clamp_rd)
  qed
  ultimately show ?thesis by simp
qed

lemma rotateImageData_180_nth:
  assumes "length (data img) = width img * height img * 4"
    and "y < height img" "x < width img" "c < 4"
  shows "data (rotateImageData img 180)
           ! (((height img - 1 - y) * width img + (width img - 1 - x)) * 4 + c)
           = data img ! ((y * width img + x) * 4 + c)"
proof -
  let ?w = "width img" and ?h = "height img" and ?d = "data img"
  let ?dst = "\<lambda>y x. (?h - 1 - y) * ?w + (?w - 1 - x)"
  let ?sp = "\<lambda>y x. y * ?w + x"
  have "data (rotateImageData img 180) =
      fold (\<lambda>y. fold (\<lambda>x out. copy_px ?d (?sp y x * 4) out (?dst y x * 4)) [0..<?w]) [0..<?h]
        (replicate (length ?d) 0)"
    by (simp add: rotateImageData_def Let_def)
  moreover have "fold (\<lambda>y. fold (\<lambda>x out. copy_px ?d (?sp y x * 4) out (?dst y x * 4)) [0..<?w])
      [0..<?h] (replicate (length ?d) 0) ! (?dst y x * 4 + c)
      = ToUint8Clamp (rd ?d (?sp y x * 4 + c))"
  proof (rule px_scatter_nth)
    have "?dst y x < ?h * ?w" using cell_less [of "?h - 1 - y" ?h "?w - 1 - x" ?w] assms by simp
    then show "?dst y x * 4 + c < length (replicate (length ?d) (0::byte))"
      using assms by (simp add: px_less mult.commute)
    show "y' = y \<and> x' = x" if "y' < ?h" "x' < ?w" "?dst y' x' = ?dst y x" for y' x'
      using cell_inj [of "?w - 1 - x'" ?w "?w - 1 - x" "?h - 1 - y'" "?h - 1 - y"] that assms
      by auto
  qed (rule assms)+
  moreover have "ToUint8Clamp (rd ?d (?sp y x * 4 + c)) = ?d ! (?sp y x * 4 + c)"
  proof -
    have "?sp y x < ?h * ?w" using assms by (intro cell_less)
    then have "?sp y x * 4 + c < length ?d" using assms by (simp add: px_less mult.commute)
    then show ?thesis by (simp add: ToUint8Clamp_rd)
  qed
  ultimately show ?thesis by simp
qed

text \<open>Every byte offset of a valid buffer is the offset of a channel of a pixel in a row.\<close>

lemma offset_split:
  assumes "k < w * h * (4::nat)"
  obtains y x c where "y < h" "x < w" "c < 4" "k = (y * w + x) * 4 + c"
proof -
  have p: "k div 4 < h * w" using assms by (simp add: mult.commute less_mult_imp_div_less)
  from cell_split [OF p] have "k div 4 div w < h" "k div 4 mod w < w"
    "(k div 4 div w) * w + k div 4 mod w = k div 4" by simp_all
  moreover have "k mod 4 < 4" "k = (k div 4) * 4 + k mod 4" by simp_all
  ultimately show ?thesis using that by metis
qed

lemma rotateImageData_90_m90:
  assumes "length (data img) = width img * height img * 4"
  shows "rotateImageData (rotateImageData img 90) (- 90) = img"
proof (rule raster.equality)
  let ?w = "width img" and ?h = "height img"
  let ?mid = "rotateImageData img 90"
  show "width (rotateImageData ?mid (- 90)) = width img"
    "height (rotateImageData ?mid (- 90)) = height img"
    "raster.more (rotateImageData ?mid (- 90)) = raster.more img"
    by (simp_all add: dims_rotateImageData)
  have mw: "width ?mid = ?h" and mh: "height ?mid = ?w" by (simp_all add: dims_rotateImageData)
  have mid: "length (data ?mid) = width ?mid * height ?mid * 4"
    by (simp add: mw mh assms mult.commute)
  show "data (rotateImageData ?mid (- 90)) = data img"
  proof (rule nth_equalityI)
    show "length (data (rotateImageData ?mid (- 90))) = length (data img)" by simp
  next
    fix k assume "k < length (data (rotateImageData ?mid (- 90)))"
    then have "k < ?w * ?h * 4" by (simp add: assms)
    then obtain y x c where yx: "y < ?h" "x < ?w" "c < 4" and k: "k = (y * ?w + x) * 4 + c"
      by (rule offset_split)
    have "data (rotateImageData ?mid (- 90))
          ! (((width ?mid - 1 - (?h - 1 - y)) * height ?mid + x) * 4 + c)
        = data ?mid ! ((x * width ?mid + (?h - 1 - y)) * 4 + c)"
      using yx by (intro rotateImageData_m90_nth mid) (simp_all add: mw mh)
    also have "\<dots> = data img ! ((y * ?w + x) * 4 + c)"
      unfolding mw by (rule rotateImageData_90_nth [OF assms yx])
    finally show "data (rotateImageData ?mid (- 90)) ! k = data img ! k"
      using yx by (simp add: k mw mh)
  qed
qed

lemma rotateImageData_180_180:
  assumes "length (data img) = width img * height img * 4"
  shows "rotateImageData (rotateImageData img 180) 180 = img"
proof (rule raster.equality)
  let ?w = "width img" and ?h = "height img"
  let ?mid = "rotateImageData img 180"
  show "width (rotateImageData ?mid 180) = width img"
    "height (rotateImageData ?mid 180) = height img"
    "raster.more (rotateImageData ?mid 180) = raster.more img"
    by (simp_all add: dims_rotateImageData)
  have mw: "width ?mid = ?w" and mh: "height ?mid = ?h" by (simp_all add: dims_rotateImageData)
  have mid: "length (data ?mid) = width ?mid * height ?mid * 4"
    by (simp add: mw mh assms)
  show "data (rotateImageData ?mid 180) = data img"
  proof (rule nth_equalityI)
    show "length (data (rotateImageData ?mid 180)) = length (data img)" by simp
  next
    fix k assume "k < length (data (rotateImageData ?mid 180))"
    then have "k < ?w * ?h * 4" by (simp add: assms)
    then obtain y x c where yx: "y < ?h" "x < ?w" "c < 4" and k: "k = (y * ?w + x) * 4 + c"
      by (rule offset_split)
    have "data (rotateImageData ?mid 180)
          ! (((height ?mid - 1 - (?h - 1 - y)) * width ?mid + (width ?mid - 1 - (?w - 1 - x))) * 4 + c)
        = data ?mid ! (((?h - 1 - y) * width ?mid + (?w - 1 - x)) * 4 + c)"
      using yx by (intro rotateImageData_180_nth mid) (simp_all add: mw mh)
    also have "\<dots> = data img ! ((y * ?w + x) * 4 + c)"
      unfolding mw by (rule rotateImageData_180_nth [OF assms yx])
    finally show "data (rotateImageData ?mid 180) ! k = data img ! k"
      using yx by (simp add: k mw mh)
  qed
qed

text \<open>
  Claim C2. For every raster (a buffer of \<open>4 * width * height\<close> bytes) a rotation by 90
  degrees followed by one by -90 degrees, and a rotation by 180 degrees applied twice,
  give the raster back; the same holds for \<open>rotateMask\<close> on a mask of \<open>w * h\<close> cells.
\<close>

theorem rotate_roundtrip:
  "(valid_raster img \<longrightarrow>
      rotateImageData (rotateImageData img 90) (- 90) = img
      \<and> rotateImageData (rotateImageData img 180) 180 = img)
   \<and> (length m = w * h \<longrightarrow>
      rotateMask (rotateMask m w h 90) h w (- 90) = m
      \<and> rotateMask (rotateMask m w h 180) w h 180 = m)"
  by (simp add: valid_raster_def rotateImageData_90_m90 rotateImageData_180_180
      rotateMask_90_m90 rotateMask_180_180)

theorem rotate_roundtrip_witness:
  "valid_raster \<lparr>width = 2, height = 1, data = [1, 2, 3, 4, 5, 6, 7, 8]\<rparr>
   \<and> rotateImageData \<lparr>width = 2, height = 1, data = [1, 2, 3, 4, 5, 6, 7, 8]\<rparr> 90
       = \<lparr>width = 1, height = 2, data = [1, 2, 3, 4, 5, 6, 7, 8]\<rparr>
   \<and> rotateImageData (rotateImageData \<lparr>width = 2, height = 1, data = [1, 2, 3, 4, 5, 6, 7, 8]\<rparr> 90) (- 90)
       = \<lparr>width = 2, height = 1, data = [1, 2, 3, 4, 5, 6, 7, 8]\<rparr>
   \<and> length [1, 2, 3, 4, 5, 6 :: byte] = 2 * 3
   \<and> rotateMask [1, 2, 3, 4, 5, 6] 2 3 90 = [5, 3, 1, 6, 4, 2]
   \<and> rotateMask (rotateMask [1, 2, 3, 4, 5, 6] 2 3 90) 3 2 (- 90) = [1, 2, 3, 4, 5, 6]
   \<and> rotateMask (rotateMask [1, 2, 3, 4, 5, 6] 2 3 180) 2 3 180 = [1, 2, 3, 4, 5, 6]"
proof -
  have v: "valid_raster \<lparr>width = 2, height = 1, data = [1, 2, 3, 4, 5, 6, 7, 8]\<rparr>"
    by (simp add: valid_raster_def)
  have l: "length [1, 2, 3, 4, 5, 6 :: byte] = 2 * 3" by simp
  have e1: "rotateImageData \<lparr>width = 2, height = 1, data = [1, 2, 3, 4, 5, 6, 7, 8]\<rparr> 90
       = \<lparr>width = 1, height = 2, data = [1, 2, 3, 4, 5, 6, 7, 8]\<rparr>"
    by code_simp
  have e2: "rotateMask [1, 2, 3, 4, 5, 6] 2 3 90 = [5, 3, 1, 6, 4, 2]"
    by code_simp
  show ?thesis
    using v l e1 e2
      rotate_roundtrip [of "\<lparr>width = 2, height = 1, data = [1, 2, 3, 4, 5, 6, 7, 8]\<rparr>"
        "[1, 2, 3, 4, 5, 6]" 2 3]
    by simp
qed

section \<open>The mask-length invariant under the transforms\<close>

lemma length_flipImageData [simp]:
  "length (data (flipImageData img horizontal vertical)) = length (data img)"
  unfolding flipImageData_def Let_def
  by (simp add: nested_scatter_length)

lemma dims_flipImageData [simp]:
  "width (flipImageData img horizontal vertical) = width img"
  "height (flipImageData img horizontal vertical) = height img"
  by (simp_all add: flipImageData_def Let_def)

lemma length_cropImageData [simp]:
  "length (data (cropImageData img r)) = rect_width r * rect_height r * 4"
  unfolding cropImageData_def Let_def
  by (simp add: nested_scatter_length new_ImageData_def)

lemma dims_cropImageData [simp]:
  "width (cropImageData img r) = rect_width r"
  "height (cropImageData img r) = rect_height r"
  by (simp_all add: cropImageData_def Let_def new_ImageData_def)

lemma map_masks_invariant:
  assumes "list_all (\<lambda>l. case layer_mask l of None \<Rightarrow> False | Some m \<Rightarrow> length m = n) ls"
    and "\<And>m. length m = n \<Longrightarrow> length (f m) = n'"
  shows "\<exists>ls'. map_masks f ls = Inr ls'
           \<and> list_all (\<lambda>l. case layer_mask l of None \<Rightarrow> False | Some m \<Rightarrow> length m = n') ls'"
  using assms(1)
proof (induction ls)
  case Nil
  then show ?case by simp
next
  case (Cons l ls)
  then obtain m where m: "layer_mask l = Some m" "length m = n"
    by (auto split: option.splits)
  from Cons obtain ls' where ls': "map_masks f ls = Inr ls'"
    "list_all (\<lambda>l. case layer_mask l of None \<Rightarrow> False | Some m \<Rightarrow> length m = n') ls'"
    by auto
  show ?case using m ls' assms(2) [of m] by simp
qed

lemma handleRotate_invariant:
  assumes "mask_invariant s"
  shows "\<exists>s' img w h. handleRotate degrees s = Inr s' \<and> mask_invariant s'
           \<and> originalImageData s = Some img \<and> dimensions s = Some (w, h)
           \<and> originalImageData s' = Some (rotateImageData img degrees)
           \<and> dimensions s' = Some (if degrees = 90 \<or> degrees = - 90 then (h, w) else (w, h))"
proof -
  from assms obtain img w h where s: "originalImageData s = Some img" "dimensions s = Some (w, h)"
    and v: "valid_raster img" "width img = w" "height img = h"
    and ls: "list_all (\<lambda>l. case layer_mask l of None \<Rightarrow> False | Some m \<Rightarrow> length m = w * h)
               (layers s)"
    by (auto simp: mask_invariant_def split: option.splits)
  have "length (rotateMask m w h degrees) = w * h" if "length m = w * h" for m
    using that by (simp add: length_rotateMask mult.commute)
  from map_masks_invariant [where f = "\<lambda>m. rotateMask m w h degrees" and n' = "w * h", OF ls this]
  obtain ls' where
    ls': "map_masks (\<lambda>m. rotateMask m w h degrees) (layers s) = Inr ls'"
      "list_all (\<lambda>l. case layer_mask l of None \<Rightarrow> False | Some m \<Rightarrow> length m = w * h) ls'"
    by blast
  have hw: "w * h = h * w" by (rule mult.commute)
  have ls'': "list_all (\<lambda>l. case layer_mask l of None \<Rightarrow> False | Some m \<Rightarrow> length m = h * w) ls'"
    using ls'(2) unfolding hw .
  have vr: "valid_raster (rotateImageData img degrees)"
    using v by (auto simp: valid_raster_def dims_rotateImageData)
  show ?thesis
    using s v vr ls' ls''
    by (auto simp: handleRotate_def Let_def mask_invariant_def dims_rotateImageData mult.commute)
qed

lemma handleFlip_invariant:
  assumes "mask_invariant s"
  shows "mask_invariant (handleFlip horizontal vertical s)
       \<and> dimensions (handleFlip horizontal vertical s) = dimensions s"
proof -
  from assms obtain img w h where s: "originalImageData s = Some img" "dimensions s = Some (w, h)"
    and v: "valid_raster img" "width img = w" "height img = h"
    and ls: "list_all (\<lambda>l. case layer_mask l of None \<Rightarrow> False | Some m \<Rightarrow> length m = w * h)
               (layers s)"
    by (auto simp: mask_invariant_def split: option.splits)
  have "list_all (\<lambda>l. case layer_mask l of None \<Rightarrow> False | Some m \<Rightarrow> length m = w * h)
      (map (\<lambda>l. l\<lparr>layer_mask := Some (flipMask (case layer_mask l of None \<Rightarrow> [] | Some m \<Rightarrow> m)
                 w h horizontal vertical)\<rparr>) (layers s))"
    using ls by (auto simp: list_all_iff length_flipMask split: option.splits)
  then show ?thesis
    using s v by (simp add: handleFlip_def Let_def mask_invariant_def valid_raster_def)
qed

lemma handleCrop_invariant:
  assumes "mask_invariant s" "0 < rect_width r" "0 < rect_height r"
  shows "\<exists>s' img. handleCrop r s = Inr s' \<and> mask_invariant s'
           \<and> originalImageData s = Some img
           \<and> originalImageData s' = Some (cropImageData img r)
           \<and> dimensions s' = Some (rect_width r, rect_height r)"
proof -
  from assms(1) obtain img w h where s: "originalImageData s = Some img" "dimensions s = Some (w, h)"
    and v: "valid_raster img" "width img = w" "height img = h"
    and ls: "list_all (\<lambda>l. case layer_mask l of None \<Rightarrow> False | Some m \<Rightarrow> length m = w * h)
               (layers s)"
    by (auto simp: mask_invariant_def split: option.splits)
  have "length (cropMask m w r) = rect_width r * rect_height r" if "length m = w * h" for m
    by (rule length_cropMask)
  from map_masks_invariant [where f = "\<lambda>m. cropMask m w r"
      and n' = "rect_width r * rect_height r", OF ls this]
  obtain ls' where
    ls': "map_masks (\<lambda>m. cropMask m w r) (layers s) = Inr ls'"
      "list_all (\<lambda>l. case layer_mask l of None \<Rightarrow> False
                     | Some m \<Rightarrow> length m = rect_width r * rect_height r) ls'"
    by blast
  have vr: "valid_raster (cropImageData img r)"
    using assms(2,3) by (simp add: valid_raster_def)
  show ?thesis
    using s vr ls' by (simp add: handleCrop_def Let_def mask_invariant_def)
qed

text \<open>
  Claim C9. The transforms keep the mask-length invariant. From a state in which the
  invariant holds, \<open>handleRotate\<close> (for every angle), \<open>handleFlip\<close> and \<open>handleCrop\<close> (for
  a rectangle of positive width and height) lead to a state in which it holds again: the
  dimensions are those of the new image buffer and every mask has that many cells. A
  rotation by 90 or -90 degrees swaps the dimensions, a flip keeps them, a crop gives those
  of the rectangle. And \<open>cropMask\<close> of the full mask with a rectangle inside the image has
  \<open>rect.width * rect.height\<close> cells, all equal to 1.
\<close>

theorem transforms_keep_mask_invariant:
  assumes "mask_invariant s"
  shows "(case handleRotate degrees s of
            Inl e \<Rightarrow> False
          | Inr s' \<Rightarrow> mask_invariant s'
              \<and> dimensions s' = map_option (\<lambda>(w, h). if degrees = 90 \<or> degrees = - 90
                                                     then (h, w) else (w, h)) (dimensions s))
       \<and> mask_invariant (handleFlip horizontal vertical s)
       \<and> dimensions (handleFlip horizontal vertical s) = dimensions s
       \<and> (0 < rect_width r \<and> 0 < rect_height r \<longrightarrow>
            (case handleCrop r s of
               Inl e \<Rightarrow> False
             | Inr s' \<Rightarrow> mask_invariant s'
                 \<and> dimensions s' = Some (rect_width r, rect_height r)))
       \<and> length (rotateMask m w h 90) = h * w \<and> length (rotateMask m w h (- 90)) = h * w
       \<and> length (rotateMask m w h 180) = length m
       \<and> length (flipMask m w h horizontal vertical) = length m
       \<and> length (cropMask m w r) = rect_width r * rect_height r
       \<and> (rect_x r + rect_width r \<le> w \<and> rect_y r + rect_height r \<le> h \<longrightarrow>
            length (cropMask (createFullMask w h) w r) = rect_width r * rect_height r
            \<and> (\<forall>k < rect_width r * rect_height r. cropMask (createFullMask w h) w r ! k = 1))"
proof -
  have rot: "case handleRotate degrees s of
            Inl e \<Rightarrow> False
          | Inr s' \<Rightarrow> mask_invariant s'
              \<and> dimensions s' = map_option (\<lambda>(w, h). if degrees = 90 \<or> degrees = - 90
                                                     then (h, w) else (w, h)) (dimensions s)"
    using handleRotate_invariant [OF assms, of degrees] by auto
  have crop: "case handleCrop r s of
               Inl e \<Rightarrow> False
             | Inr s' \<Rightarrow> mask_invariant s'
                 \<and> dimensions s' = Some (rect_width r, rect_height r)"
    if "0 < rect_width r" "0 < rect_height r"
    using handleCrop_invariant [OF assms that] by auto
  have full: "\<forall>k < rect_width r * rect_height r. cropMask (createFullMask w h) w r ! k = 1"
    if "rect_x r + rect_width r \<le> w" "rect_y r + rect_height r \<le> h"
    using that by (simp add: cropMask_full_nth)
  show ?thesis
    using rot crop full handleFlip_invariant [OF assms, of horizontal vertical]
    by (simp add: length_rotateMask length_flipMask length_cropMask)
qed

theorem transforms_keep_mask_invariant_witness:
  "mask_invariant
     \<lparr>dimensions = Some (2, 1),
      originalImageData = Some \<lparr>width = 2, height = 1, data = [1, 2, 3, 4, 5, 6, 7, 8]\<rparr>,
      layers = [\<lparr>layer_id = ''a'', layer_color = \<lparr>red = 1, green = 2, blue = 3\<rparr>,
                 name = ''#010203'', visible = True, tolerance = Some 10,
                 layer_mask = Some (createFullMask 2 1), paintData = None\<rparr>]\<rparr>
   \<and> (case handleRotate 90
          \<lparr>dimensions = Some (2, 1),
           originalImageData = Some \<lparr>width = 2, height = 1, data = [1, 2, 3, 4, 5, 6, 7, 8]\<rparr>,
           layers = [\<lparr>layer_id = ''a'', layer_color = \<lparr>red = 1, green = 2, blue = 3\<rparr>,
                      name = ''#010203'', visible = True, tolerance = Some 10,
                      layer_mask = Some (createFullMask 2 1), paintData = None\<rparr>]\<rparr> of
         Inl e \<Rightarrow> False
       | Inr s' \<Rightarrow> mask_invariant s' \<and> dimensions s' = Some (1, 2))
   \<and> (0::nat) < rect_width \<lparr>rect_x = 1, rect_y = 0, rect_width = 1, rect_height = 1\<rparr>
   \<and> (0::nat) < rect_height \<lparr>rect_x = 1, rect_y = 0, rect_width = 1, rect_height = 1\<rparr>
   \<and> (case handleCrop \<lparr>rect_x = 1, rect_y = 0, rect_width = 1, rect_height = 1\<rparr>
          \<lparr>dimensions = Some (2, 1),
           originalImageData = Some \<lparr>width = 2, height = 1, data = [1, 2, 3, 4, 5, 6, 7, 8]\<rparr>,
           layers = [\<lparr>layer_id = ''a'', layer_color = \<lparr>red = 1, green = 2, blue = 3\<rparr>,
                      name = ''#010203'', visible = True, tolerance = Some 10,
                      layer_mask = Some (createFullMask 2 1), paintData = None\<rparr>]\<rparr> of
         Inl e \<Rightarrow> False
       | Inr s' \<Rightarrow> mask_invariant s' \<and> dimensions s' = Some (1, 1))
   \<and> rect_x \<lparr>rect_x = 1, rect_y = 0, rect_width = 1, rect_height = 1\<rparr>
       + rect_width \<lparr>rect_x = 1, rect_y = 0, rect_width = 1, rect_height = 1\<rparr> \<le> (2::nat)
   \<and> rect_y \<lparr>rect_x = 1, rect_y = 0, rect_width = 1, rect_height = 1\<rparr>
       + rect_height \<lparr>rect_x = 1, rect_y = 0, rect_width = 1, rect_height = 1\<rparr> \<le> (1::nat)
   \<and> cropMask (createFullMask 2 1) 2 \<lparr>rect_x = 1, rect_y = 0, rect_width = 1, rect_height = 1\<rparr> ! 0 = 1"
proof -
  let ?s = "\<lparr>dimensions = Some (2, 1),
      originalImageData = Some \<lparr>width = 2, height = 1, data = [1, 2, 3, 4, 5, 6, 7, 8]\<rparr>,
      layers = [\<lparr>layer_id = ''a'', layer_color = \<lparr>red = 1, green = 2, blue = 3\<rparr>,
                 name = ''#010203'', visible = True, tolerance = Some 10,
                 layer_mask = Some (createFullMask 2 1), paintData = None\<rparr>]\<rparr>"
  let ?r = "\<lparr>rect_x = 1, rect_y = 0, rect_width = 1, rect_height = 1\<rparr>"
  have inv: "mask_invariant ?s"
    by (simp add: mask_invariant_def valid_raster_def createFullMask_def)
  note T = transforms_keep_mask_invariant [OF inv, of 90 True False ?r "[]" 2 1]
  have pos: "0 < rect_width ?r \<and> 0 < rect_height ?r" by simp
  have inside: "rect_x ?r + rect_width ?r \<le> 2 \<and> rect_y ?r + rect_height ?r \<le> 1" by simp
  from T have "case handleRotate 90 ?s of Inl e \<Rightarrow> False
      | Inr s' \<Rightarrow> mask_invariant s' \<and> dimensions s' = Some (1, 2)"
    by (auto split: sum.splits)
  moreover from T pos have "case handleCrop ?r ?s of Inl e \<Rightarrow> False
      | Inr s' \<Rightarrow> mask_invariant s' \<and> dimensions s' = Some (1, 1)"
    by (auto split: sum.splits)
  moreover from T inside have "\<forall>k < rect_width ?r * rect_height ?r.
      cropMask (createFullMask 2 1) 2 ?r ! k = 1"
    by blast
  then have "cropMask (createFullMask 2 1) 2 ?r ! 0 = 1" by simp
  ultimately show ?thesis using inv by simp
qed

section \<open>Properties of the colour report\<close>


lemma digit_hex: "k < 16 \<Longrightarrow> digit k \<in> set ''0123456789abcdef''"
  unfolding digit_def by (rule nth_mem) simp



lemma toString16_hex: "set (toString16 n) \<subseteq> set ''0123456789abcdef''"
proof (induction n rule: toString16.induct)
  case (1 n)
  show ?case
  proof (cases "n < 16")
    case True
    then show ?thesis using digit_hex [of n] by (subst toString16.simps) simp
  next
    case False
    then show ?thesis using 1 digit_hex [of "n mod 16"] by (subst toString16.simps) simp
  qed
qed


lemma plain_Cons [simp]:
  "plain (c # s) = (c \<noteq> CHR '','' \<and> c \<noteq> CHR 0x0D \<and> plain s)"
  by (auto simp: plain_def)

lemma plain_Nil [simp]: "plain []"
  by (simp add: plain_def)



lemma plain_toString16 [simp]: "plain (toString16 n)"
  using toString16_hex [of n] by (auto simp: plain_def)























lemmas fl_eval = toFixed2_def fl_def fl_scale.simps rne_def Let_def toString10.simps digit_def


text \<open>
  23 pixels of 160: the quotient and its product by 100 are rounded, and the percentage
  is 14.37, where the exact 14.375 would be written 14.38.
\<close>

lemma example_percentage_rounded: "spec_percentage 23 160 = ''14.37''"
  by (simp add: spec_percentage_def fl_eval)

lemma example_percentage_rounded_more:
  "spec_percentage 41 160 = ''25.62''" "spec_percentage 51 160 = ''31.87''"
  "spec_percentage 87 160 = ''54.37''" "spec_percentage 97 160 = ''60.62''"
  "spec_percentage 1 8 = ''12.50''" "spec_percentage 1 3 = ''33.33''"
  "spec_percentage 0 160 = ''0.00''" "spec_percentage 160 160 = ''100.00''"
  by (simp_all add: spec_percentage_def fl_eval)






end
